theory Spec2Isabelle
  imports Main "HOL-Library.Code_Target_Nat"
begin

section \<open>Strings and characters of the host language\<close>

text \<open>
  A JavaScript string is a sequence of UTF-16 code units; \<open>length\<close>, \<open>substring\<close>,
  \<open>trim\<close> and the regular expressions of the source (none carries the \<open>u\<close> flag) all
  work on code units. A code unit is modelled by its number, a string by the list of its
  code units. \<open>str\<close> reads an ASCII literal of the source.
\<close>

type_synonym jschar = nat
type_synonym jsstring = "jschar list"

definition str :: "string \<Rightarrow> jsstring" where
  "str w = map of_char w"

text \<open>\<open>\w\<close> is \<open>[A-Za-z0-9_]\<close> and \<open>\d\<close> is \<open>[0-9]\<close>.\<close>

definition word_char :: "jschar \<Rightarrow> bool" where
  "word_char c = ((97 \<le> c \<and> c \<le> 122) \<or> (65 \<le> c \<and> c \<le> 90) \<or> (48 \<le> c \<and> c \<le> 57) \<or> c = 95)"

definition digit_char :: "jschar \<Rightarrow> bool" where
  "digit_char c = (48 \<le> c \<and> c \<le> 57)"

text \<open>The class \<open>[a-z0-9]\<close> of the identifier format.\<close>

definition lower_alnum :: "jschar \<Rightarrow> bool" where
  "lower_alnum c = ((97 \<le> c \<and> c \<le> 122) \<or> (48 \<le> c \<and> c \<le> 57))"

text \<open>
  \<open>\s\<close> and \<open>String.prototype.trim\<close> share one set: the WhiteSpace and LineTerminator
  code points of ECMAScript (TAB, LF, VT, FF, CR, SP, NBSP, U+1680, U+2000 to U+200A,
  U+2028, U+2029, U+202F, U+205F, U+3000, U+FEFF).
\<close>

definition white_space :: "jschar \<Rightarrow> bool" where
  "white_space c = ((9 \<le> c \<and> c \<le> 13) \<or> c = 32 \<or> c = 160 \<or> c = 5760 \<or> (8192 \<le> c \<and> c \<le> 8202)
     \<or> c = 8232 \<or> c = 8233 \<or> c = 8239 \<or> c = 8287 \<or> c = 12288 \<or> c = 65279)"

definition trim :: "jsstring \<Rightarrow> jsstring" where
  "trim s = rev (dropWhile white_space (rev (dropWhile white_space s)))"

text \<open>
  \<open>s.substring(a, b)\<close> for non-negative integers: both indices are clamped to the length
  and swapped when out of order.
\<close>

definition substring :: "nat \<Rightarrow> nat \<Rightarrow> jsstring \<Rightarrow> jsstring" where
  "substring a b s =
     (let a' = min a (length s); b' = min b (length s); lo = min a' b'; hi = max a' b'
      in take (hi - lo) (drop lo s))"

text \<open>
  The decimal digits of a natural number, and a template literal's rendering of an integer
  (exact below \<open>10^21\<close>, where JavaScript switches to exponent notation; \<open>Date.now()\<close>
  stays below \<open>8.64 * 10^15\<close>).
\<close>

fun decimal :: "nat \<Rightarrow> jsstring" where
  "decimal n = (if n < 10 then [48 + n] else decimal (n div 10) @ [48 + n mod 10])"

declare decimal.simps [simp del]

definition numberToString :: "int \<Rightarrow> jsstring" where
  "numberToString t = (if t < 0 then 45 # decimal (nat (- t)) else decimal (nat t))"


section \<open>Regular expressions\<close>

text \<open>
  The patterns of the source use literal characters, character classes, sequence,
  alternation, the greedy star and plus, a negative lookahead, \<open>\b\<close>, \<open>^\<close> and \<open>$\<close>.
  Groups only structure a pattern: \<open>test\<close> and \<open>match\<close> are used for their truth value.
\<close>

datatype regex =
    Eps
  | Chr jschar
  | Cls "jschar \<Rightarrow> bool"
  | Seq regex regex
  | Alt regex regex
  | Star regex
  | NegLook regex
  | WordB
  | Bol
  | Eol

definition Many1 :: "regex \<Rightarrow> regex" where
  "Many1 r = Seq r (Star r)"

definition seqs :: "regex list \<Rightarrow> regex" where
  "seqs rs = foldr Seq rs Eps"

definition alts :: "regex list \<Rightarrow> regex" where
  "alts rs = foldr Alt (butlast rs) (last rs)"

definition lit :: "string \<Rightarrow> regex" where
  "lit w = seqs (map (\<lambda>c. Chr (of_char c)) w)"

text \<open>
  Under the \<open>i\<close> flag two code units match when their canonical forms agree. Every literal
  of the source is ASCII, and the canonical form of a code unit from 128 on is never an
  ASCII one, so only the folding of \<open>a-z\<close> onto \<open>A-Z\<close> can make a literal match. The
  classes used under \<open>i\<close> (\<open>\w\<close>, \<open>\s\<close>, \<open>[^<]\<close>) are closed under that folding.
\<close>

definition canonicalize :: "jschar \<Rightarrow> jschar" where
  "canonicalize c = (if 97 \<le> c \<and> c \<le> 122 then c - 32 else c)"

definition char_match :: "bool \<Rightarrow> jschar \<Rightarrow> jschar \<Rightarrow> bool" where
  "char_match ignoreCase p c = (if ignoreCase then canonicalize c = canonicalize p else c = p)"

text \<open>
  A star repeats its body; an iteration that consumes nothing is refused, as the
  RepeatMatcher of ECMAScript does. Every accepted iteration moves the position forward,
  so \<open>n\<close> iterations suffice when \<open>n\<close> code units remain.
\<close>

fun iterate :: "(nat \<Rightarrow> nat list) \<Rightarrow> nat \<Rightarrow> nat \<Rightarrow> nat list" where
  "iterate f 0 i = [i]"
| "iterate f (Suc n) i = i # concat (map (iterate f n) (filter (\<lambda>j. i < j) (f i)))"

text \<open>
  \<open>ends r ignoreCase s i\<close> lists the positions at which a match of \<open>r\<close> starting at
  position \<open>i\<close> of \<open>s\<close> can end, over all the choices backtracking can make.
\<close>

primrec ends :: "regex \<Rightarrow> bool \<Rightarrow> jsstring \<Rightarrow> nat \<Rightarrow> nat list" where
  "ends Eps ic s i = [i]"
| "ends (Chr p) ic s i = (if i < length s \<and> char_match ic p (s ! i) then [Suc i] else [])"
| "ends (Cls P) ic s i = (if i < length s \<and> P (s ! i) then [Suc i] else [])"
| "ends (Seq a b) ic s i = concat (map (ends b ic s) (ends a ic s i))"
| "ends (Alt a b) ic s i = ends a ic s i @ ends b ic s i"
| "ends (Star a) ic s i = iterate (ends a ic s) (length s - i) i"
| "ends (NegLook a) ic s i = (if ends a ic s i = [] then [i] else [])"
| "ends WordB ic s i =
     (if (0 < i \<and> word_char (s ! (i - 1))) \<noteq> (i < length s \<and> word_char (s ! i)) then [i] else [])"
| "ends Bol ic s i = (if i = 0 then [i] else [])"
| "ends Eol ic s i = (if i = length s then [i] else [])"

text \<open>
  \<open>pattern.test(s)\<close> on a regular expression object fresh from its literal (\<open>lastIndex\<close>
  is 0), and the truth value of \<open>s.match(pattern)\<close>: some start position has a match.
\<close>

definition test :: "regex \<Rightarrow> bool \<Rightarrow> jsstring \<Rightarrow> bool" where
  "test r ignoreCase s = list_ex (\<lambda>i. ends r ignoreCase s i \<noteq> []) [0..<Suc (length s)]"


section \<open>Security utilities\<close>

subsection \<open>validateInput\<close>

definition not_lt :: "jschar \<Rightarrow> bool" where
  "not_lt c = (c \<noteq> 60)"

text \<open>
  The first pattern, \<open><script\b[^<]*(?:(?!<\/script>)<[^<]*)*<\/script>\<close>, a script
  element with its closing tag.
\<close>

definition script_element :: regex where
  "script_element =
     seqs [lit ''<script'', WordB, Star (Cls not_lt),
           Star (seqs [NegLook (lit ''</script>''), lit ''<'', Star (Cls not_lt)]),
           lit ''</script>'']"

definition maliciousPatterns :: "regex list" where
  "maliciousPatterns =
    [ script_element,
      lit ''javascript:'',
      seqs [lit ''on'', Many1 (Cls word_char), Star (Cls white_space), lit ''=''],
      lit ''data:text/html'',
      lit ''vbscript:'',
      lit ''<iframe'',
      lit ''<object'',
      lit ''<embed'',
      lit ''<link'',
      lit ''<meta'',
      lit ''<style'',
      seqs [lit ''expression'', Star (Cls white_space), lit ''(''],
      seqs [lit ''url'', Star (Cls white_space), lit ''(''],
      lit ''@import'' ]"

definition validateInput :: "jsstring \<Rightarrow> bool" where
  "validateInput input =
     (if input = [] \<or> trim input = [] then False
      else if length input > 1000 then False
      else \<not> list_ex (\<lambda>pattern. test pattern True input) maliciousPatterns)"

subsection \<open>sanitizeHtml\<close>

text \<open>\<open>s.replace(/c/g, rep)\<close> for a single character \<open>c\<close> and a replacement without \<open>$\<close>.\<close>

definition replace_all :: "jschar \<Rightarrow> jsstring \<Rightarrow> jsstring \<Rightarrow> jsstring" where
  "replace_all c rep s = concat (map (\<lambda>x. if x = c then rep else [x]) s)"

definition sanitizeHtml :: "jsstring \<Rightarrow> jsstring" where
  "sanitizeHtml input =
     replace_all 47 (str ''&#x2F;'')
       (replace_all 39 (str ''&#x27;'')
         (replace_all 34 (str ''&quot;'')
           (replace_all 62 (str ''&gt;'')
             (replace_all 60 (str ''&lt;'')
               (replace_all 38 (str ''&amp;'') input)))))"

subsection \<open>isValidContent\<close>

definition sqlKeywords :: "string list" where
  "sqlKeywords = [''SELECT'', ''INSERT'', ''UPDATE'', ''DELETE'', ''DROP'', ''CREATE'',
                  ''ALTER'', ''EXEC'', ''UNION'', ''SCRIPT'']"

text \<open>
  The first pattern carries the flags \<open>gi\<close>, the second only \<open>g\<close>; its alternatives are
  \<open>--\<close>, \<open>/*\<close>, \<open>*/\<close>, \<open>;\<close>, the single quote (39), the double quote (34), \<open>|\<close>,
  \<open>&\<close> and \<open>+\<close>.
\<close>

definition sqlPatterns :: "(regex \<times> bool) list" where
  "sqlPatterns =
    [ (seqs [WordB, alts (map lit sqlKeywords), WordB], True),
      (alts [lit ''--'', lit ''/*'', lit ''*/'', lit '';'', Chr 39, Chr 34, lit ''|'', lit ''&'',
             lit ''+''], False) ]"

definition xssPatterns :: "regex list" where
  "xssPatterns =
    [ lit ''javascript:'', lit ''vbscript:'', lit ''onload'', lit ''onerror'', lit ''onclick'',
      lit ''onmouseover'', lit ''<script'', lit ''</script>'', lit ''eval('', lit ''alert('',
      lit ''confirm('', lit ''prompt('' ]"

definition isValidContent :: "jsstring \<Rightarrow> bool" where
  "isValidContent content =
     (let trimmed = trim content;
          hasSqlInjection = list_ex (\<lambda>(pattern, ic). test pattern ic trimmed) sqlPatterns;
          hasXss = list_ex (\<lambda>pattern. test pattern True trimmed) xssPatterns
      in \<not> hasSqlInjection \<and> \<not> hasXss)"

subsection \<open>RateLimiter\<close>

record rate_limiter =
  attempts :: "jsstring \<rightharpoonup> int list"
  maxAttempts :: nat
  windowMs :: int

text \<open>The constructor with its default arguments; \<open>now\<close> is the reading of \<open>Date.now()\<close>.\<close>

definition new_RateLimiter :: "nat \<Rightarrow> int \<Rightarrow> rate_limiter" where
  "new_RateLimiter m w = \<lparr> attempts = Map.empty, maxAttempts = m, windowMs = w \<rparr>"

definition default_RateLimiter :: rate_limiter where
  "default_RateLimiter = new_RateLimiter 10 60000"

definition isAllowed :: "int \<Rightarrow> jsstring \<Rightarrow> rate_limiter \<Rightarrow> bool \<times> rate_limiter" where
  "isAllowed now key rl =
     (let stored = (case attempts rl key of None \<Rightarrow> [] | Some a \<Rightarrow> a);
          validAttempts = filter (\<lambda>time. now - time < windowMs rl) stored
      in if length validAttempts \<ge> maxAttempts rl then (False, rl)
         else (True, rl\<lparr>attempts := (attempts rl)(key \<mapsto> validAttempts @ [now])\<rparr>))"

definition reset :: "jsstring \<Rightarrow> rate_limiter \<Rightarrow> rate_limiter" where
  "reset key rl = rl\<lparr>attempts := (attempts rl)(key := None)\<rparr>"

subsection \<open>generateSecureId, validateLength\<close>

text \<open>
  \<open>timestamp\<close> is the reading of \<open>Date.now()\<close>; \<open>random36\<close> and \<open>moreRandom36\<close> are
  the two strings \<open>Math.random().toString(36)\<close> that the runtime hands to \<open>substring\<close>.
\<close>

definition generateSecureId :: "int \<Rightarrow> jsstring \<Rightarrow> jsstring \<Rightarrow> jsstring" where
  "generateSecureId timestamp random36 moreRandom36 =
     (let random = substring 2 15 random36;
          moreRandom = substring 2 15 moreRandom36
      in numberToString timestamp @ str ''_'' @ random @ moreRandom)"

definition validateLength :: "jsstring \<Rightarrow> nat \<Rightarrow> bool" where
  "validateLength input maxLength = (length input \<le> maxLength)"

subsection \<open>validateForContext\<close>

datatype input_context = Text | Attribute | Url

text \<open>
  The \<open>url\<close> context asks the platform's URL parser for the protocol of the input;
  \<open>url_protocol\<close> stands for that parser (\<open>None\<close> when the constructor throws).
\<close>

definition validateForContext :: "(jsstring \<Rightarrow> jsstring option) \<Rightarrow> jsstring \<Rightarrow> input_context \<Rightarrow> bool" where
  "validateForContext url_protocol input ctx =
     (case ctx of
        Text \<Rightarrow> validateInput input \<and> isValidContent input
      | Attribute \<Rightarrow> validateInput input \<and>
          \<not> test (Cls (\<lambda>c. c = 60 \<or> c = 62 \<or> c = 34 \<or> c = 39 \<or> c = 38)) False input
      | Url \<Rightarrow> (case url_protocol input of
                  None \<Rightarrow> False
                | Some protocol \<Rightarrow> protocol \<in> set [str ''http:'', str ''https:'']))"

subsection \<open>auditLog\<close>

text \<open>
  The audit sink is the console. An entry is the event name with the details object,
  passed through \<open>safeObjectCreate\<close>; the entry's time stamp, user agent and page
  address are readings of the environment and are left out.
\<close>

datatype detail = S jsstring | N int | Null

type_synonym audit_entry = "string \<times> (string \<times> detail) list"

definition safeObjectCreate :: "(string \<times> detail) list \<Rightarrow> (string \<times> detail) list" where
  "safeObjectCreate data =
     filter (\<lambda>(key, v). key \<noteq> ''__proto__'' \<and> key \<noteq> ''constructor'' \<and> key \<noteq> ''prototype'') data"


section \<open>The application\<close>

record item =
  item_id :: jsstring
  item_text :: jsstring
  createdAt :: int
  lastModified :: int

record security_state =
  isBlocked :: bool
  message :: string
  sec_attempts :: nat

record validation =
  isValid :: bool
  sanitized :: jsstring
  error :: "string option"

text \<open>
  The component's state, the module's rate limiter and the audit sink. The deferred
  clearing of the alert (\<open>setTimeout\<close>, 5000 ms) runs after the handler and is not part
  of a handler's step.
\<close>

record app =
  items :: "item list"
  newItem :: jsstring
  editingId :: "jsstring option"
  editingText :: jsstring
  security :: security_state
  rateLimiter :: rate_limiter
  console :: "audit_entry list"

definition initial_app :: app where
  "initial_app =
     \<lparr> items = [], newItem = [], editingId = None, editingText = [],
       security = \<lparr> isBlocked = False, message = [], sec_attempts = 0 \<rparr>,
       rateLimiter = default_RateLimiter, console = [] \<rparr>"

definition auditLog :: "string \<Rightarrow> (string \<times> detail) list \<Rightarrow> app \<Rightarrow> app" where
  "auditLog event details st = st\<lparr>console := console st @ [(event, safeObjectCreate details)]\<rparr>"

definition rejected :: "string \<Rightarrow> validation" where
  "rejected msg = \<lparr> isValid = False, sanitized = [], error = Some msg \<rparr>"

text \<open>\<open>now\<close> is the reading of \<open>Date.now()\<close> inside \<open>isAllowed\<close>.\<close>

definition validateAndSanitizeInput ::
  "(jsstring \<Rightarrow> jsstring option) \<Rightarrow> int \<Rightarrow> jsstring \<Rightarrow> app \<Rightarrow> validation \<times> app" where
  "validateAndSanitizeInput url_protocol now input st =
     (let (allowed, rl) = isAllowed now (str ''crud_operations'') (rateLimiter st);
          st1 = st\<lparr>rateLimiter := rl\<rparr>
      in if \<not> allowed then
           (rejected ''Too many requests. Please wait before trying again.'',
            auditLog ''RATE_LIMIT_EXCEEDED'' [(''input'', S (substring 0 50 input))] st1)
         else if \<not> validateLength input 500 then
           (rejected ''Input is too long. Maximum 500 characters allowed.'',
            auditLog ''INPUT_TOO_LONG'' [(''length'', N (int (length input)))] st1)
         else if \<not> validateInput input then
           (rejected ''Invalid input detected. Please check your content.'',
            auditLog ''MALICIOUS_INPUT_DETECTED'' [(''input'', S (substring 0 100 input))] st1)
         else if \<not> isValidContent input then
           (rejected ''Potentially unsafe content detected.'',
            auditLog ''SUSPICIOUS_CONTENT_DETECTED'' [(''input'', S (substring 0 100 input))] st1)
         else if \<not> validateForContext url_protocol input Text then
           (rejected ''Content failed security validation.'',
            auditLog ''CONTEXT_VALIDATION_FAILED'' [(''input'', S (substring 0 100 input))] st1)
         else (\<lparr> isValid = True, sanitized = sanitizeHtml (trim input), error = None \<rparr>, st1))"

definition error_or :: "string option \<Rightarrow> string \<Rightarrow> string" where
  "error_or e d = (case e of None \<Rightarrow> d | Some m \<Rightarrow> if m = [] then d else m)"

text \<open>
  \<open>addItem\<close> reads the clock three times: in the rate limiter (\<open>t_limit\<close>), for the
  item's two time stamps (\<open>now\<close>) and in \<open>generateSecureId\<close> (\<open>t_id\<close>).
\<close>

definition addItem ::
  "(jsstring \<Rightarrow> jsstring option) \<Rightarrow> int \<Rightarrow> int \<Rightarrow> int \<Rightarrow> jsstring \<Rightarrow> jsstring \<Rightarrow> app \<Rightarrow> app" where
  "addItem url_protocol t_limit now t_id random36 moreRandom36 st =
     (let (v, st1) = validateAndSanitizeInput url_protocol t_limit (newItem st) st
      in if \<not> isValid v then
           st1\<lparr>security := \<lparr> isBlocked = True,
                              message = error_or (error v) ''Security validation failed'',
                              sec_attempts = sec_attempts (security st1) + 1 \<rparr>\<rparr>
         else if sanitized v \<noteq> [] then
           (let it = \<lparr> item_id = generateSecureId t_id random36 moreRandom36,
                       item_text = sanitized v, createdAt = now, lastModified = now \<rparr>
            in auditLog ''ITEM_CREATED''
                 [(''itemId'', S (item_id it)), (''textLength'', N (int (length (item_text it))))]
                 (st1\<lparr>items := items st1 @ [it], newItem := [],
                      security := \<lparr> isBlocked = False, message = [], sec_attempts = 0 \<rparr>\<rparr>))
         else st1)"

text \<open>The format check of \<open>deleteItem\<close>: \<open>/^\d+_[a-z0-9]+$/\<close>, without flags.\<close>

definition id_format :: regex where
  "id_format = seqs [Bol, Many1 (Cls digit_char), lit ''_'', Many1 (Cls lower_alnum), Eol]"

definition deleteItem :: "int \<Rightarrow> jsstring \<Rightarrow> app \<Rightarrow> app" where
  "deleteItem now ident st =
     (if \<not> test id_format False ident then
        (auditLog ''INVALID_DELETE_ID'' [(''id'', S ident)] st)
          \<lparr>security := \<lparr> isBlocked = True, message = ''Invalid item identifier'', sec_attempts = 0 \<rparr>\<rparr>
      else
        (let (allowed, rl) = isAllowed now (str ''delete_operations'') (rateLimiter st);
             st1 = st\<lparr>rateLimiter := rl\<rparr>
         in if \<not> allowed then
              (auditLog ''DELETE_RATE_LIMIT_EXCEEDED'' [(''id'', S ident)] st1)
                \<lparr>security := \<lparr> isBlocked = True, message = ''Too many delete requests. Please wait.'',
                                 sec_attempts = 0 \<rparr>\<rparr>
            else auditLog ''ITEM_DELETED'' [(''itemId'', S ident)]
                   (st1\<lparr>items := filter (\<lambda>it. item_id it \<noteq> ident) (items st1)\<rparr>)))"

definition startEditing :: "item \<Rightarrow> app \<Rightarrow> app" where
  "startEditing it st =
     auditLog ''EDIT_STARTED'' [(''itemId'', S (item_id it))]
       (st\<lparr>editingId := Some (item_id it), editingText := item_text it\<rparr>)"

definition handleNewItemChange :: "jsstring \<Rightarrow> app \<Rightarrow> app" where
  "handleNewItemChange v st =
     (if length v > 500 then
        st\<lparr>security := \<lparr> isBlocked = True, message = ''Input too long. Maximum 500 characters.'',
                          sec_attempts = 0 \<rparr>\<rparr>
      else if isBlocked (security st) \<and> length v < 500 then
        st\<lparr>newItem := v, security := (security st)\<lparr> isBlocked := False, message := [] \<rparr>\<rparr>
      else st\<lparr>newItem := v\<rparr>)"

definition handleEditTextChange :: "jsstring \<Rightarrow> app \<Rightarrow> app" where
  "handleEditTextChange v st =
     (if length v > 500 then
        st\<lparr>security := \<lparr> isBlocked = True, message = ''Input too long. Maximum 500 characters.'',
                          sec_attempts = 0 \<rparr>\<rparr>
      else st\<lparr>editingText := v\<rparr>)"

text \<open>
  \<open>saveEdit\<close> reads the clock in the rate limiter (\<open>t_limit\<close>) and for the new
  \<open>lastModified\<close> (\<open>now\<close>). An absent or empty \<open>editingId\<close> is falsy.
\<close>

definition saveEdit :: "(jsstring \<Rightarrow> jsstring option) \<Rightarrow> int \<Rightarrow> int \<Rightarrow> app \<Rightarrow> app" where
  "saveEdit url_protocol t_limit now st =
     (case editingId st of
        None \<Rightarrow> st
      | Some eid \<Rightarrow>
          if eid = [] then st
          else
            (let (v, st1) = validateAndSanitizeInput url_protocol t_limit (editingText st) st
             in if \<not> isValid v then
                  st1\<lparr>security := \<lparr> isBlocked = True,
                                     message = error_or (error v) ''Security validation failed'',
                                     sec_attempts = 0 \<rparr>\<rparr>
                else
                  (let st2 =
                     (if sanitized v \<noteq> [] then
                        auditLog ''ITEM_UPDATED''
                          [(''itemId'', S eid), (''textLength'', N (int (length (sanitized v))))]
                          (st1\<lparr>items := map (\<lambda>it. if item_id it = eid
                                                     then it\<lparr>item_text := sanitized v, lastModified := now\<rparr>
                                                     else it) (items st1)\<rparr>)
                      else st1)
                   in st2\<lparr>editingId := None, editingText := [],
                          security := \<lparr> isBlocked = False, message = [], sec_attempts = 0 \<rparr>\<rparr>)))"

definition cancelEdit :: "app \<Rightarrow> app" where
  "cancelEdit st =
     auditLog ''EDIT_CANCELLED'' [(''itemId'', (case editingId st of None \<Rightarrow> Null | Some e \<Rightarrow> S e))]
       (st\<lparr>editingId := None, editingText := []\<rparr>)"


section \<open>Notions used to state the properties\<close>

text \<open>A platform whose URL constructor throws on every input; concrete runs use it.\<close>

definition no_url_parser :: "jsstring \<Rightarrow> jsstring option" where
  "no_url_parser input = None"

text \<open>
  The sanitizer as the specification words it: every character is replaced once, by its
  entity when it is one of the six, by itself otherwise.
\<close>

definition escape_char :: "jschar \<Rightarrow> jsstring" where
  "escape_char c =
     (if c = 38 then str ''&amp;'' else if c = 60 then str ''&lt;'' else if c = 62 then str ''&gt;''
      else if c = 34 then str ''&quot;'' else if c = 39 then str ''&#x27;''
      else if c = 47 then str ''&#x2F;'' else [c])"

text \<open>
  \<open>lit_at ic w s i\<close>: the word \<open>w\<close> stands at position \<open>i\<close> of \<open>s\<close> (in any casing when
  \<open>ic\<close> holds); \<open>occurs ic w s\<close>: it stands somewhere in \<open>s\<close>.
\<close>

definition lit_at :: "bool \<Rightarrow> jsstring \<Rightarrow> jsstring \<Rightarrow> nat \<Rightarrow> bool" where
  "lit_at ic w s i = list_all2 (char_match ic) w (take (length w) (drop i s))"

definition occurs :: "bool \<Rightarrow> jsstring \<Rightarrow> jsstring \<Rightarrow> bool" where
  "occurs ic w s = list_ex (lit_at ic w s) [0..<Suc (length s)]"

text \<open>
  A word boundary lies at position \<open>i\<close> when exactly one of the two neighbours is a word
  character; a word-bounded occurrence has a boundary on each side.
\<close>

definition boundary :: "jsstring \<Rightarrow> nat \<Rightarrow> bool" where
  "boundary s i = ((0 < i \<and> word_char (s ! (i - 1))) \<noteq> (i < length s \<and> word_char (s ! i)))"

definition word_bounded_occurs :: "jsstring \<Rightarrow> jsstring \<Rightarrow> bool" where
  "word_bounded_occurs w s =
     list_ex (\<lambda>i. boundary s i \<and> lit_at True w s i \<and> boundary s (i + length w))
       [0..<Suc (length s)]"

text \<open>Successive calls of \<open>isAllowed\<close> for one key, at the given clock readings.\<close>

fun isAllowed_seq :: "int list \<Rightarrow> jsstring \<Rightarrow> rate_limiter \<Rightarrow> bool list \<times> rate_limiter" where
  "isAllowed_seq [] key rl = ([], rl)"
| "isAllowed_seq (t # ts) key rl =
     (let (b, rl1) = isAllowed t key rl;
          (bs, rl2) = isAllowed_seq ts key rl1
      in (b # bs, rl2))"

definition stored :: "rate_limiter \<Rightarrow> jsstring \<Rightarrow> int list" where
  "stored rl key = (case attempts rl key of None \<Rightarrow> [] | Some a \<Rightarrow> a)"


section \<open>Literals, occurrences and trimming\<close>

lemma lit_Nil: "lit [] = Eps"
  by (simp add: lit_def seqs_def)

lemma lit_Cons: "lit (c # w) = Seq (Chr (of_char c)) (lit w)"
  by (simp add: lit_def seqs_def)

lemma lit_at_Nil: "lit_at ic [] s i"
  by (simp add: lit_at_def)

lemma lit_at_Cons:
  "lit_at ic (p # w) s i = (i < length s \<and> char_match ic p (s ! i) \<and> lit_at ic w s (Suc i))"
proof (cases "i < length s")
  case True
  then have "drop i s = s ! i # drop (Suc i) s" by (simp add: Cons_nth_drop_Suc)
  then show ?thesis using True by (simp add: lit_at_def)
next
  case False
  then show ?thesis by (simp add: lit_at_def)
qed

lemma ends_lit: "ends (lit w) ic s i = (if lit_at ic (str w) s i then [i + length w] else [])"
proof (induction w arbitrary: i)
  case Nil
  show ?case by (simp add: lit_Nil str_def lit_at_Nil)
next
  case (Cons c w)
  have "str (c # w) = of_char c # str w" by (simp add: str_def)
  then show ?case by (simp add: lit_Cons Cons.IH lit_at_Cons)
qed

lemma test_iff: "test r ic s \<longleftrightarrow> (\<exists>i\<le>length s. ends r ic s i \<noteq> [])"
  unfolding test_def list_ex_iff set_upt by (auto simp: less_Suc_eq_le)

lemma occurs_pos: "occurs ic w s \<longleftrightarrow> (\<exists>i\<le>length s. lit_at ic w s i)"
  unfolding occurs_def list_ex_iff set_upt by (auto simp: less_Suc_eq_le)

lemma test_lit: "test (lit w) ic s = occurs ic (str w) s"
  by (auto simp: test_iff occurs_pos ends_lit)

lemma lit_at_bound:
  assumes "lit_at ic w s i" "w \<noteq> []"
  shows "i + length w \<le> length s"
proof -
  from assms(1) have "length w = length (take (length w) (drop i s))"
    unfolding lit_at_def by (rule list_all2_lengthD)
  then have "length w \<le> length s - i" by simp
  moreover from assms(2) have "0 < length w" by simp
  ultimately show ?thesis by arith
qed

lemma occurs_iff:
  "occurs ic w s \<longleftrightarrow> (\<exists>pre mid post. s = pre @ mid @ post \<and> list_all2 (char_match ic) w mid)"
proof
  assume "occurs ic w s"
  then obtain i where i: "lit_at ic w s i" by (auto simp: occurs_pos)
  have "s = take i s @ take (length w) (drop i s) @ drop (length w) (drop i s)"
    by (simp only: append_take_drop_id)
  with i show "\<exists>pre mid post. s = pre @ mid @ post \<and> list_all2 (char_match ic) w mid"
    unfolding lit_at_def by blast
next
  assume "\<exists>pre mid post. s = pre @ mid @ post \<and> list_all2 (char_match ic) w mid"
  then obtain pre mid post where s: "s = pre @ mid @ post" and m: "list_all2 (char_match ic) w mid"
    by blast
  from m have "length mid = length w" by (simp add: list_all2_lengthD)
  with s m have "lit_at ic w s (length pre)" by (simp add: lit_at_def)
  moreover have "length pre \<le> length s" using s by simp
  ultimately show "occurs ic w s" by (auto simp: occurs_pos)
qed

lemma dropWhile_keeps:
  "mid \<noteq> [] \<Longrightarrow> \<not> P (hd mid) \<Longrightarrow> \<exists>pre'. dropWhile P (pre @ mid @ post) = pre' @ mid @ post"
proof (induction pre)
  case Nil
  then obtain x xs where "mid = x # xs" by (cases mid) auto
  with Nil show ?case by auto
next
  case (Cons a pre)
  then obtain pre' where "dropWhile P (pre @ mid @ post) = pre' @ mid @ post" by blast
  then show ?case by (cases "P a") (auto intro: exI [of _ "a # pre"])
qed

lemma trim_keeps:
  assumes "mid \<noteq> []" "\<not> white_space (hd mid)" "\<not> white_space (last mid)"
  shows "\<exists>pre' post'. trim (pre @ mid @ post) = pre' @ mid @ post'"
proof -
  from assms obtain pre' where a: "dropWhile white_space (pre @ mid @ post) = pre' @ mid @ post"
    using dropWhile_keeps by blast
  have "rev mid \<noteq> []" "\<not> white_space (hd (rev mid))"
    using assms by (simp_all add: hd_rev)
  then obtain q where "dropWhile white_space (rev post @ rev mid @ rev pre') = q @ rev mid @ rev pre'"
    using dropWhile_keeps by blast
  then have "trim (pre @ mid @ post) = pre' @ mid @ rev q"
    by (simp add: trim_def a)
  then show ?thesis by blast
qed

lemma occurs_trim:
  assumes "occurs ic w s" "w \<noteq> []"
    and "\<And>c. char_match ic (hd w) c \<Longrightarrow> \<not> white_space c"
    and "\<And>c. char_match ic (last w) c \<Longrightarrow> \<not> white_space c"
  shows "occurs ic w (trim s)"
proof -
  from assms(1) obtain pre mid post where s: "s = pre @ mid @ post"
    and m: "list_all2 (char_match ic) w mid" by (auto simp: occurs_iff)
  from m assms(2) have ne: "mid \<noteq> []" by auto
  from m assms(2) ne have "char_match ic (hd w) (hd mid)"
    by (cases w; cases mid) auto
  then have h: "\<not> white_space (hd mid)" by (rule assms(3))
  from m have len: "length w = length mid" by (rule list_all2_lengthD)
  from m assms(2) ne len have "char_match ic (last w) (last mid)"
    by (simp add: last_conv_nth list_all2_conv_all_nth)
  then have l: "\<not> white_space (last mid)" by (rule assms(4))
  from trim_keeps [OF ne h l] obtain pre' post' where "trim s = pre' @ mid @ post'"
    unfolding s by blast
  with m show ?thesis by (auto simp: occurs_iff)
qed

lemma script_open_trim:
  assumes "occurs True (str ''<script'') s"
  shows "occurs True (str ''<script'') (trim s)"
proof (rule occurs_trim [OF assms])
  show "str ''<script'' \<noteq> []" by (simp add: str_def)
next
  fix c assume "char_match True (hd (str ''<script'')) c"
  then show "\<not> white_space c"
    by (auto simp: str_def char_match_def canonicalize_def white_space_def split: if_splits)
next
  fix c assume "char_match True (last (str ''<script'')) c"
  then show "\<not> white_space c"
    by (auto simp: str_def char_match_def canonicalize_def white_space_def split: if_splits)
qed


section \<open>Repetition\<close>

lemma iterate_self: "i \<in> set (iterate f n i)"
  by (cases n) simp_all

lemma iterate_step:
  "j \<in> set (f i) \<Longrightarrow> i < j \<Longrightarrow> k \<in> set (iterate f n j) \<Longrightarrow> k \<in> set (iterate f (Suc n) i)"
  by auto

lemma iterate_mono: "k \<in> set (iterate f n i) \<Longrightarrow> n \<le> m \<Longrightarrow> k \<in> set (iterate f m i)"
proof (induction n arbitrary: i m)
  case 0
  then show ?case by (simp add: iterate_self)
next
  case (Suc n)
  from Suc.prems(2) obtain m' where m: "m = Suc m'" "n \<le> m'" by (cases m) auto
  from Suc.prems(1) consider "k = i"
    | j where "j \<in> set (f i)" "i < j" "k \<in> set (iterate f n j)"
    by auto
  then show ?case
  proof cases
    case 1
    then show ?thesis by (simp add: iterate_self)
  next
    case 2
    from Suc.IH [OF 2(3) m(2)] have "k \<in> set (iterate f m' j)" .
    with 2(1,2) show ?thesis unfolding m(1) by (rule iterate_step)
  qed
qed

lemma iterate_bound:
  assumes "\<And>i j. i \<le> L \<Longrightarrow> j \<in> set (f i) \<Longrightarrow> j \<le> L"
  shows "i \<le> L \<Longrightarrow> k \<in> set (iterate f n i) \<Longrightarrow> i \<le> k \<and> k \<le> L"
proof (induction n arbitrary: i)
  case 0
  then show ?case by simp
next
  case (Suc n)
  from Suc.prems(2) show ?case
  proof (auto simp: Suc.prems(1))
    fix j assume j: "j \<in> set (f i)" "i < j" and k: "k \<in> set (iterate f n j)"
    from assms [OF Suc.prems(1) j(1)] have "j \<le> L" .
    from Suc.IH [OF this k] j(2) show "i \<le> k" by simp
  next
    fix j assume j: "j \<in> set (f i)" "i < j" and k: "k \<in> set (iterate f n j)"
    from assms [OF Suc.prems(1) j(1)] have "j \<le> L" .
    from Suc.IH [OF this k] show "k \<le> L" by simp
  qed
qed

lemma iterate_saturated:
  assumes "\<And>i j. i \<le> L \<Longrightarrow> j \<in> set (f i) \<Longrightarrow> j \<le> L"
  shows "i \<le> L \<Longrightarrow> L - i \<le> n \<Longrightarrow> set (iterate f (Suc n) i) \<subseteq> set (iterate f n i)"
proof (induction n arbitrary: i)
  case 0
  then have "i = L" by simp
  with assms have "filter (\<lambda>j. i < j) (f i) = []"
    by (auto simp: filter_empty_conv not_less)
  then show ?case by simp
next
  case (Suc n)
  show ?case
  proof
    fix k assume "k \<in> set (iterate f (Suc (Suc n)) i)"
    then consider "k = i" | j where "j \<in> set (f i)" "i < j" "k \<in> set (iterate f (Suc n) j)"
      by auto
    then show "k \<in> set (iterate f (Suc n) i)"
    proof cases
      case 1
      then show ?thesis by simp
    next
      case 2
      from assms [OF Suc.prems(1) 2(1)] have jL: "j \<le> L" .
      from 2(2) Suc.prems(2) have "L - j \<le> n" by arith
      from Suc.IH [OF jL this] 2(3) have "k \<in> set (iterate f n j)" by blast
      with 2(1,2) show ?thesis by auto
    qed
  qed
qed

lemma ends_bound: "i \<le> length s \<Longrightarrow> j \<in> set (ends r ic s i) \<Longrightarrow> i \<le> j \<and> j \<le> length s"
proof (induction r arbitrary: i j)
  case Eps
  then show ?case by simp
next
  case (Chr p)
  then show ?case by (cases "i < length s \<and> char_match ic p (s ! i)") simp_all
next
  case (Cls P)
  then show ?case by (cases "i < length s \<and> P (s ! i)") simp_all
next
  case (Seq a b)
  from Seq.prems(2) obtain m where m: "m \<in> set (ends a ic s i)" "j \<in> set (ends b ic s m)"
    by auto
  from Seq.IH(1) [OF Seq.prems(1) m(1)] have "i \<le> m" "m \<le> length s" by simp_all
  moreover from Seq.IH(2) [OF \<open>m \<le> length s\<close> m(2)] have "m \<le> j" "j \<le> length s" by simp_all
  ultimately show ?case by simp
next
  case (Alt a b)
  from Alt.prems(2) have "j \<in> set (ends a ic s i) \<or> j \<in> set (ends b ic s i)" by simp
  with Alt.IH Alt.prems(1) show ?case by blast
next
  case (Star a)
  have "\<And>i j. i \<le> length s \<Longrightarrow> j \<in> set (ends a ic s i) \<Longrightarrow> j \<le> length s"
    using Star.IH by blast
  from iterate_bound [of "length s" "ends a ic s", OF this Star.prems(1)] Star.prems(2)
  show ?case by simp
next
  case (NegLook a)
  from NegLook.prems(2) have "j = i" by (cases "ends a ic s i = []") simp_all
  with NegLook.prems(1) show ?case by simp
next
  case WordB
  from WordB(2) have "j = i"
    by (cases "(0 < i \<and> word_char (s ! (i - 1))) \<noteq> (i < length s \<and> word_char (s ! i))") simp_all
  with WordB(1) show ?case by simp
next
  case Bol
  from Bol(2) have "j = i" by (cases "i = 0") simp_all
  with Bol(1) show ?case by simp
next
  case Eol
  from Eol(2) have "j = i" by (cases "i = length s") simp_all
  with Eol(1) show ?case by simp
qed

text \<open>More fuel than the remaining length adds no end position to a star.\<close>

lemma star_fuel_enough:
  assumes "i \<le> length s" "length s - i \<le> n"
  shows "set (iterate (ends a ic s) n i) = set (ends (Star a) ic s i)"
proof -
  have b: "\<And>i j. i \<le> length s \<Longrightarrow> j \<in> set (ends a ic s i) \<Longrightarrow> j \<le> length s"
    using ends_bound by blast
  have "set (iterate (ends a ic s) (length s - i + d) i) = set (iterate (ends a ic s) (length s - i) i)" for d
  proof (induction d)
    case 0
    show ?case by simp
  next
    case (Suc d)
    have "set (iterate (ends a ic s) (Suc (length s - i + d)) i)
            \<subseteq> set (iterate (ends a ic s) (length s - i + d) i)"
      by (rule iterate_saturated [of "length s", OF b assms(1)]) simp_all
    moreover have "set (iterate (ends a ic s) (length s - i + d) i)
            \<subseteq> set (iterate (ends a ic s) (Suc (length s - i + d)) i)"
      using iterate_mono [of _ "ends a ic s" "length s - i + d" i "Suc (length s - i + d)"] by auto
    ultimately have "set (iterate (ends a ic s) (Suc (length s - i + d)) i)
            = set (iterate (ends a ic s) (length s - i + d) i)" by (rule equalityI)
    then show ?case unfolding add_Suc_right using Suc.IH by (rule trans)
  qed
  from this [of "n - (length s - i)"] assms(2) show ?thesis by simp
qed

lemma star_self: "i \<in> set (ends (Star a) ic s i)"
  by (simp add: iterate_self)

lemma star_step:
  assumes "j \<in> set (ends a ic s i)" "i < j" "j \<le> length s" "k \<in> set (ends (Star a) ic s j)"
  shows "k \<in> set (ends (Star a) ic s i)"
proof -
  from assms(2,3) obtain m where m: "length s - i = Suc m" "length s - j \<le> m"
    by (cases "length s - i") auto
  from assms(4) have "k \<in> set (iterate (ends a ic s) (length s - j) j)" by simp
  then have "k \<in> set (iterate (ends a ic s) m j)" using m(2) by (rule iterate_mono)
  with assms(1,2) have "k \<in> set (iterate (ends a ic s) (Suc m) i)" by (rule iterate_step)
  then show ?thesis by (simp add: m(1))
qed

lemma star_cls:
  assumes "\<forall>k. i \<le> k \<and> k < j \<longrightarrow> P (s ! k)" "i \<le> j" "j \<le> length s"
  shows "j \<in> set (ends (Star (Cls P)) ic s i)"
  using assms
proof (induction "j - i" arbitrary: i)
  case 0
  then have "i = j" by simp
  then show ?case by (simp only: star_self)
next
  case (Suc d)
  then have lt: "i < j" by simp
  with Suc.prems have a: "Suc i \<in> set (ends (Cls P) ic s i)" by simp
  have b: "j \<in> set (ends (Star (Cls P)) ic s (Suc i))"
  proof (rule Suc.hyps(1))
    show "d = j - Suc i" using Suc.hyps(2) by simp
    show "\<forall>k. Suc i \<le> k \<and> k < j \<longrightarrow> P (s ! k)" using Suc.prems(1) by simp
    show "Suc i \<le> j" using lt by simp
    show "j \<le> length s" by (rule Suc.prems(3))
  qed
  have c: "i < Suc i" by simp
  have d: "Suc i \<le> length s" using lt Suc.prems(3) by simp
  show ?case by (rule star_step [OF a c d b])
qed

lemma ends_SeqI:
  "j \<in> set (ends a ic s i) \<Longrightarrow> k \<in> set (ends b ic s j) \<Longrightarrow> k \<in> set (ends (Seq a b) ic s i)"
  by auto

lemma many1_cls:
  assumes "\<forall>k. i \<le> k \<and> k < j \<longrightarrow> P (s ! k)" "i < j" "j \<le> length s"
  shows "j \<in> set (ends (Many1 (Cls P)) ic s i)"
proof -
  from assms have a: "Suc i \<in> set (ends (Cls P) ic s i)" by simp
  have b: "j \<in> set (ends (Star (Cls P)) ic s (Suc i))"
  proof (rule star_cls)
    show "\<forall>k. Suc i \<le> k \<and> k < j \<longrightarrow> P (s ! k)" using assms(1) by simp
    show "Suc i \<le> j" using assms(2) by simp
    show "j \<le> length s" by (rule assms(3))
  qed
  show ?thesis unfolding Many1_def by (rule ends_SeqI [OF a b])
qed


section \<open>The script element pattern\<close>

lemma seqs_Nil: "seqs [] = Eps"
  by (simp add: seqs_def)

lemma seqs_Cons: "seqs (r # rs) = Seq r (seqs rs)"
  by (simp add: seqs_def)

lemma neglook_pass: "ends r ic s i = [] \<Longrightarrow> i \<in> set (ends (NegLook r) ic s i)"
  by simp

lemma next_lt:
  assumes "q \<le> c"
  obtains q' where "q \<le> q'" "q' \<le> c" "q' = c \<or> s ! q' = 60"
    "\<forall>k. q \<le> k \<and> k < q' \<longrightarrow> not_lt (s ! k)"
proof -
  define Q where "Q = (\<lambda>x. q \<le> x \<and> (x = c \<or> s ! x = 60))"
  from assms have "Q c" by (simp add: Q_def)
  then obtain q' where q': "Q q'" "\<forall>m<q'. \<not> Q m"
    using exists_least_iff [of Q] by blast
  from q'(2) \<open>Q c\<close> have "q' \<le> c" by (meson not_less)
  moreover have "\<forall>k. q \<le> k \<and> k < q' \<longrightarrow> not_lt (s ! k)"
    using q'(2) by (auto simp: Q_def not_lt_def)
  ultimately show ?thesis using q'(1) that by (auto simp: Q_def)
qed

lemma inner_step:
  assumes "s ! q = 60" "q < length s" "\<not> lit_at True (str ''</script>'') s q"
    and "q < q'" "q' \<le> length s" "\<forall>k. Suc q \<le> k \<and> k < q' \<longrightarrow> not_lt (s ! k)"
  shows "q' \<in> set (ends (seqs [NegLook (lit ''</script>''), lit ''<'', Star (Cls not_lt)]) True s q)"
proof -
  have a: "q \<in> set (ends (NegLook (lit ''</script>'')) True s q)"
    using assms(3) by (simp add: ends_lit)
  have "lit_at True (str ''<'') s q"
    using assms(1,2) by (simp add: str_def lit_at_Cons lit_at_Nil char_match_def)
  then have b: "Suc q \<in> set (ends (lit ''<'') True s q)" by (simp add: ends_lit)
  have c: "q' \<in> set (ends (Star (Cls not_lt)) True s (Suc q))"
    using assms(4,5,6) by (intro star_cls) auto
  have d: "q' \<in> set (ends Eps True s q')" by simp
  show ?thesis unfolding seqs_Cons seqs_Nil
    by (rule ends_SeqI [OF a ends_SeqI [OF b ends_SeqI [OF c d]]])
qed

lemma inner_star:
  assumes "c \<le> length s" "\<forall>k. q \<le> k \<and> k < c \<longrightarrow> \<not> lit_at True (str ''</script>'') s k"
    and "q \<le> c" "q = c \<or> s ! q = 60"
  shows "c \<in> set (ends (Star (seqs [NegLook (lit ''</script>''), lit ''<'', Star (Cls not_lt)])) True s q)"
  using assms
proof (induction "c - q" arbitrary: q rule: less_induct)
  case less
  show ?case
  proof (cases "q = c")
    case True
    then show ?thesis by (simp only: star_self)
  next
    case False
    with less.prems have q: "q < c" "s ! q = 60" by simp_all
    then have "Suc q \<le> c" by simp
    then obtain q' where q': "Suc q \<le> q'" "q' \<le> c" "q' = c \<or> s ! q' = 60"
      "\<forall>k. Suc q \<le> k \<and> k < q' \<longrightarrow> not_lt (s ! k)" by (rule next_lt)
    have a: "q' \<in> set (ends (seqs [NegLook (lit ''</script>''), lit ''<'', Star (Cls not_lt)]) True s q)"
    proof (rule inner_step)
      show "s ! q = 60" by (rule q(2))
      show "q < length s" using q(1) less.prems(1) by simp
      show "\<not> lit_at True (str ''</script>'') s q" using less.prems(2) q(1) by simp
      show "q < q'" using q'(1) by simp
      show "q' \<le> length s" using q'(2) less.prems(1) by simp
      show "\<forall>k. Suc q \<le> k \<and> k < q' \<longrightarrow> not_lt (s ! k)" by (rule q'(4))
    qed
    have b: "c \<in> set (ends (Star (seqs [NegLook (lit ''</script>''), lit ''<'', Star (Cls not_lt)])) True s q')"
    proof (rule less.hyps)
      show "c - q' < c - q" using q'(1,2) q(1) by arith
      show "c \<le> length s" by (rule less.prems(1))
      show "\<forall>k. q' \<le> k \<and> k < c \<longrightarrow> \<not> lit_at True (str ''</script>'') s k"
        using less.prems(2) q'(1) by simp
      show "q' \<le> c" by (rule q'(2))
      show "q' = c \<or> s ! q' = 60" by (rule q'(3))
    qed
    have lt: "q < q'" using q'(1) by simp
    have le: "q' \<le> length s" using q'(2) less.prems(1) by simp
    show ?thesis by (rule star_step [OF a lt le b])
  qed
qed

lemma script_element_matches:
  assumes "lit_at True (str ''<script'') s a" "boundary s (a + 7)"
    and "a + 7 \<le> c0" "lit_at True (str ''</script>'') s c0"
  shows "test script_element True s"
proof -
  define Q where "Q = (\<lambda>x. a + 7 \<le> x \<and> lit_at True (str ''</script>'') s x)"
  from assms(3,4) have "Q c0" by (simp add: Q_def)
  then obtain c where c: "Q c" "\<forall>m<c. \<not> Q m"
    using exists_least_iff [of Q] by blast
  then have cb: "a + 7 \<le> c" and cl: "lit_at True (str ''</script>'') s c"
    and first: "\<forall>k. a + 7 \<le> k \<and> k < c \<longrightarrow> \<not> lit_at True (str ''</script>'') s k"
    by (auto simp: Q_def)
  have len: "c + 9 \<le> length s"
    using lit_at_bound [OF cl] by (simp add: str_def)
  then have cs: "c \<le> length s" by simp
  from cb obtain q where q: "a + 7 \<le> q" "q \<le> c" "q = c \<or> s ! q = 60"
    "\<forall>k. a + 7 \<le> k \<and> k < q \<longrightarrow> not_lt (s ! k)" by (rule next_lt)
  have e1: "a + 7 \<in> set (ends (lit ''<script'') True s a)"
    using assms(1) by (simp add: ends_lit)
  have e2: "a + 7 \<in> set (ends WordB True s (a + 7))"
    using assms(2) by (simp add: boundary_def)
  have e3: "q \<in> set (ends (Star (Cls not_lt)) True s (a + 7))"
    using q(1,2,4) cs by (intro star_cls) auto
  have e4: "c \<in> set (ends (Star (seqs [NegLook (lit ''</script>''), lit ''<'', Star (Cls not_lt)])) True s q)"
  proof (rule inner_star)
    show "c \<le> length s" by (rule cs)
    show "\<forall>k. q \<le> k \<and> k < c \<longrightarrow> \<not> lit_at True (str ''</script>'') s k"
      using first q(1) by simp
    show "q \<le> c" by (rule q(2))
    show "q = c \<or> s ! q = 60" by (rule q(3))
  qed
  have e5: "c + 9 \<in> set (ends (lit ''</script>'') True s c)"
    using cl by (simp add: ends_lit)
  have e6: "c + 9 \<in> set (ends Eps True s (c + 9))" by simp
  have "c + 9 \<in> set (ends script_element True s a)"
    unfolding script_element_def seqs_Cons seqs_Nil
    by (rule ends_SeqI [OF e1 ends_SeqI [OF e2 ends_SeqI [OF e3
          ends_SeqI [OF e4 [unfolded seqs_Cons seqs_Nil] ends_SeqI [OF e5 e6]]]]])
  then have "ends script_element True s a \<noteq> []" by (metis empty_iff list.set(1))
  moreover have "a \<le> length s" using cb cs by simp
  ultimately show ?thesis unfolding test_iff by blast
qed

lemma script_element_refused:
  assumes "lit_at True (str ''<script'') input a" "boundary input (a + 7)"
    and "a + 7 \<le> c" "lit_at True (str ''</script>'') input c"
  shows "\<not> validateInput input"
proof -
  have t: "test script_element True input" by (rule script_element_matches [OF assms])
  have "list_ex (\<lambda>pattern. test pattern True input) maliciousPatterns"
    unfolding maliciousPatterns_def list_ex_Cons_iff by (rule disjI1) (rule t)
  then show ?thesis by (simp add: validateInput_def)
qed


section \<open>The identifier format\<close>

lemma decimal_digits: "decimal n \<noteq> [] \<and> list_all digit_char (decimal n)"
proof (induction n rule: decimal.induct)
  case (1 n)
  show ?case
  proof (cases "n < 10")
    case True
    then show ?thesis by (subst (1 2) decimal.simps) (simp add: digit_char_def)
  next
    case False
    with "1" have "list_all digit_char (decimal (n div 10))" by simp
    moreover have "digit_char (48 + n mod 10)" by (simp add: digit_char_def)
    ultimately show ?thesis using False by (subst (1 2) decimal.simps) simp
  qed
qed

lemma id_format_matches:
  assumes "ds \<noteq> []" "list_all digit_char ds" "rs \<noteq> []" "list_all lower_alnum rs"
  shows "test id_format False (ds @ str ''_'' @ rs)"
proof -
  let ?s = "ds @ str ''_'' @ rs"
  let ?n = "length ds"
  have us: "str ''_'' = [95]" by (simp add: str_def)
  have len: "length ?s = Suc (?n + length rs)" by (simp add: us)
  have e1: "0 \<in> set (ends Bol False ?s 0)" by simp
  have e2: "?n \<in> set (ends (Many1 (Cls digit_char)) False ?s 0)"
  proof (rule many1_cls)
    show "\<forall>k. 0 \<le> k \<and> k < ?n \<longrightarrow> digit_char (?s ! k)"
      using assms(2) by (simp add: nth_append list_all_length)
    show "0 < ?n" using assms(1) by simp
    show "?n \<le> length ?s" by simp
  qed
  have "lit_at False (str ''_'') ?s ?n"
    by (simp add: us lit_at_Cons lit_at_Nil char_match_def nth_append)
  then have e3: "Suc ?n \<in> set (ends (lit ''_'') False ?s ?n)"
    by (simp add: ends_lit)
  have e4: "length ?s \<in> set (ends (Many1 (Cls lower_alnum)) False ?s (Suc ?n))"
  proof (rule many1_cls)
    show "\<forall>k. Suc ?n \<le> k \<and> k < length ?s \<longrightarrow> lower_alnum (?s ! k)"
    proof (intro allI impI)
      fix k assume k: "Suc ?n \<le> k \<and> k < length ?s"
      then have "?s ! k = rs ! (k - Suc ?n)" by (simp add: nth_append us nth_Cons')
      moreover from k have "k - Suc ?n < length rs" unfolding len by arith
      ultimately show "lower_alnum (?s ! k)" using assms(4) by (simp add: list_all_length)
    qed
    show "Suc ?n < length ?s" using assms(3) by (simp add: us)
    show "length ?s \<le> length ?s" by simp
  qed
  have e5: "length ?s \<in> set (ends Eol False ?s (length ?s))" by simp
  have e6: "length ?s \<in> set (ends Eps False ?s (length ?s))" by simp
  have "length ?s \<in> set (ends id_format False ?s 0)"
    unfolding id_format_def seqs_Cons seqs_Nil
    by (rule ends_SeqI [OF e1 ends_SeqI [OF e2 ends_SeqI [OF e3 ends_SeqI [OF e4 ends_SeqI [OF e5 e6]]]]])
  then have "ends id_format False ?s 0 \<noteq> []" by (metis empty_iff list.set(1))
  then show ?thesis unfolding test_iff by blast
qed

lemma generateSecureId_format:
  assumes "0 \<le> timestamp"
    and "substring 2 15 random36 @ substring 2 15 moreRandom36 \<noteq> []"
    and "list_all lower_alnum (substring 2 15 random36 @ substring 2 15 moreRandom36)"
  shows "test id_format False (generateSecureId timestamp random36 moreRandom36)"
proof -
  have "generateSecureId timestamp random36 moreRandom36
          = decimal (nat timestamp) @ str ''_'' @ (substring 2 15 random36 @ substring 2 15 moreRandom36)"
    using assms(1) by (simp add: generateSecureId_def Let_def numberToString_def)
  moreover have "test id_format False
     (decimal (nat timestamp) @ str ''_'' @ (substring 2 15 random36 @ substring 2 15 moreRandom36))"
    using decimal_digits [of "nat timestamp"] assms(2,3) by (intro id_format_matches) simp_all
  ultimately show ?thesis by simp
qed


lemma iterate_unit_steps:
  assumes "\<And>i j. j \<in> set (f i) \<Longrightarrow> j = Suc i \<and> Q i"
  shows "k \<in> set (iterate f n i) \<Longrightarrow> i \<le> k \<and> (\<forall>m. i \<le> m \<and> m < k \<longrightarrow> Q m)"
proof (induction n arbitrary: i)
  case 0
  then show ?case by auto
next
  case (Suc n)
  from Suc.prems consider "k = i"
    | j where "j \<in> set (f i)" "i < j" "k \<in> set (iterate f n j)"
    by auto
  then show ?case
  proof cases
    case 1
    then show ?thesis by auto
  next
    case 2
    from assms [OF 2(1)] have j: "j = Suc i" "Q i" by simp_all
    from Suc.IH [OF 2(3)] have "j \<le> k" "\<forall>m. j \<le> m \<and> m < k \<longrightarrow> Q m"
      by simp_all
    with j show ?thesis
      by (metis Suc_leD le_antisym not_less_eq_eq)
  qed
qed

lemma star_cls_sound:
  assumes "k \<in> set (ends (Star (Cls P)) ic s i)"
  shows "i \<le> k \<and> (\<forall>m. i \<le> m \<and> m < k \<longrightarrow> m < length s \<and> P (s ! m))"
proof -
  have "\<And>i j. j \<in> set (ends (Cls P) ic s i) \<Longrightarrow> j = Suc i \<and> (i < length s \<and> P (s ! i))"
    by (simp split: if_splits)
  from iterate_unit_steps [of "ends (Cls P) ic s" "\<lambda>m. m < length s \<and> P (s ! m)", OF this] assms
  show ?thesis by simp
qed

lemma many1_cls_sound:
  assumes "k \<in> set (ends (Many1 (Cls P)) ic s i)"
  shows "i < k \<and> (\<forall>m. i \<le> m \<and> m < k \<longrightarrow> m < length s \<and> P (s ! m))"
proof -
  from assms obtain j where j: "j \<in> set (ends (Cls P) ic s i)" "k \<in> set (ends (Star (Cls P)) ic s j)"
    unfolding Many1_def by (auto simp del: ends.simps(6))
  from j(1) have i: "j = Suc i" "i < length s" "P (s ! i)" by (simp_all split: if_splits)
  from star_cls_sound [OF j(2)] have "j \<le> k" "\<forall>m. j \<le> m \<and> m < k \<longrightarrow> m < length s \<and> P (s ! m)"
    by simp_all
  with i show ?thesis by (metis Suc_leD Suc_le_lessD le_antisym not_less_eq_eq)
qed

lemma ends_SeqE:
  assumes "k \<in> set (ends (Seq a b) ic s i)"
  obtains j where "j \<in> set (ends a ic s i)" "k \<in> set (ends b ic s j)"
  using assms by auto

lemma id_format_sound:
  assumes "test id_format False s"
  shows "\<exists>ds rs. s = ds @ str ''_'' @ rs \<and> ds \<noteq> [] \<and> list_all digit_char ds
                 \<and> rs \<noteq> [] \<and> list_all lower_alnum rs"
proof -
  from assms obtain i k where k: "k \<in> set (ends id_format False s i)"
    unfolding test_iff by (meson last_in_set)
  from k obtain i1 where a1: "i1 \<in> set (ends Bol False s i)"
    and r1: "k \<in> set (ends (seqs [Many1 (Cls digit_char), lit ''_'', Many1 (Cls lower_alnum), Eol]) False s i1)"
    unfolding id_format_def seqs_Cons by (rule ends_SeqE)
  from r1 obtain n where a2: "n \<in> set (ends (Many1 (Cls digit_char)) False s i1)"
    and r2: "k \<in> set (ends (seqs [lit ''_'', Many1 (Cls lower_alnum), Eol]) False s n)"
    unfolding seqs_Cons by (rule ends_SeqE)
  from r2 obtain u where a3: "u \<in> set (ends (lit ''_'') False s n)"
    and r3: "k \<in> set (ends (seqs [Many1 (Cls lower_alnum), Eol]) False s u)"
    unfolding seqs_Cons by (rule ends_SeqE)
  from r3 obtain e where a4: "e \<in> set (ends (Many1 (Cls lower_alnum)) False s u)"
    and r4: "k \<in> set (ends (seqs [Eol]) False s e)"
    unfolding seqs_Cons by (rule ends_SeqE)
  from a1 have i1: "i1 = 0" by (simp split: if_splits)
  from many1_cls_sound [OF a2] have n: "0 < n" "\<forall>m. m < n \<longrightarrow> m < length s \<and> digit_char (s ! m)"
    by (simp_all add: i1)
  from a3 have u: "u = Suc n" "lit_at False (str ''_'') s n"
    by (simp_all add: ends_lit split: if_splits)
  then have un: "n < length s" "s ! n = 95"
    by (simp_all add: str_def lit_at_Cons char_match_def)
  from many1_cls_sound [OF a4] have e: "Suc n < e"
    "\<forall>m. Suc n \<le> m \<and> m < e \<longrightarrow> m < length s \<and> lower_alnum (s ! m)"
    by (simp_all add: u)
  from r4 have "e = length s" by (simp add: seqs_Cons seqs_Nil split: if_splits)
  with e have el: "Suc n < length s" "\<forall>m. Suc n \<le> m \<and> m < length s \<longrightarrow> lower_alnum (s ! m)"
    by simp_all
  have "s = take n s @ s ! n # drop (Suc n) s"
    using un(1) by (simp add: id_take_nth_drop)
  then have dec: "s = take n s @ str ''_'' @ drop (Suc n) s"
    by (simp add: str_def un(2))
  have "take n s \<noteq> []" using n(1) un(1) by auto
  moreover have "list_all digit_char (take n s)"
    using n(2) by (simp add: list_all_length)
  moreover have "drop (Suc n) s \<noteq> []" using el(1) by simp
  moreover have "list_all lower_alnum (drop (Suc n) s)"
    using el(2) by (simp add: list_all_length)
  ultimately show ?thesis using dec by blast
qed

lemma id_format_iff:
  "test id_format False s \<longleftrightarrow>
     (\<exists>ds rs. s = ds @ str ''_'' @ rs \<and> ds \<noteq> [] \<and> list_all digit_char ds
              \<and> rs \<noteq> [] \<and> list_all lower_alnum rs)"
  using id_format_sound id_format_matches by blast

lemma generateSecureId_zero_never_matches:
  "\<not> test id_format False (generateSecureId timestamp (str ''0'') (str ''0''))"
proof
  assume "test id_format False (generateSecureId timestamp (str ''0'') (str ''0''))"
  then obtain ds rs where d: "generateSecureId timestamp (str ''0'') (str ''0'') = ds @ str ''_'' @ rs"
    "rs \<noteq> []" "list_all lower_alnum rs"
    using id_format_sound by blast
  have g: "generateSecureId timestamp (str ''0'') (str ''0'') = numberToString timestamp @ [95]"
    by (simp add: generateSecureId_def Let_def substring_def str_def)
  from d(2) obtain rs' x where rs: "rs = rs' @ [x]" by (metis rev_exhaust)
  with d(1) g have "numberToString timestamp @ [95] = (ds @ str ''_'' @ rs') @ [x]" by simp
  then have "x = 95" by (metis last_snoc)
  with d(3) rs show False by (simp add: lower_alnum_def)
qed


section \<open>The sanitizer\<close>

lemma replace_all_Nil: "replace_all c rep [] = []"
  by (simp add: replace_all_def)

lemma replace_all_Cons:
  "replace_all c rep (x # xs) = (if x = c then rep else [x]) @ replace_all c rep xs"
  by (simp add: replace_all_def)

lemma replace_all_append:
  "replace_all c rep (xs @ ys) = replace_all c rep xs @ replace_all c rep ys"
  by (simp add: replace_all_def)

lemma sanitizeHtml_Nil: "sanitizeHtml [] = []"
  by (simp add: sanitizeHtml_def replace_all_Nil)

lemma sanitizeHtml_Cons: "sanitizeHtml (c # cs) = escape_char c @ sanitizeHtml cs"
  by (simp add: sanitizeHtml_def escape_char_def replace_all_Cons replace_all_append str_def
        replace_all_Nil)

lemma sanitizeHtml_escape: "sanitizeHtml input = concat (map escape_char input)"
  by (induction input) (simp_all add: sanitizeHtml_Nil sanitizeHtml_Cons)

text \<open>
  C3: \<open>sanitizeHtml\<close> applied to the string \<open><b>&"'/\<close> (the characters 60, 98, 62, 38,
  34, 39, 47) returns exactly \<open>&lt;b&gt;&amp;&quot;&#x27;&#x2F;\<close>; and for every input
  the six passes, ampersand first, replace each of \<open>& < > " ' /\<close> by its entity and
  leave every other character, the characters of the entities included, as it is: the
  result is the concatenation of the escapes of the input's characters.
\<close>

theorem sanitizeHtml_entities:
  "sanitizeHtml (str ''<b>&'' @ [34, 39, 47]) = str ''&lt;b&gt;&amp;&quot;&#x27;&#x2F;''
   \<and> sanitizeHtml input = concat (map escape_char input)"
proof
  show "sanitizeHtml (str ''<b>&'' @ [34, 39, 47]) = str ''&lt;b&gt;&amp;&quot;&#x27;&#x2F;''"
    by code_simp
  show "sanitizeHtml input = concat (map escape_char input)"
    by (rule sanitizeHtml_escape)
qed


section \<open>The rate limiter\<close>

lemma isAllowed_under:
  assumes "length (stored rl key) < maxAttempts rl"
    and "\<forall>u\<in>set (stored rl key). t - u < windowMs rl"
  shows "isAllowed t key rl = (True, rl\<lparr>attempts := (attempts rl)(key \<mapsto> stored rl key @ [t])\<rparr>)"
proof -
  from assms(2) have "filter (\<lambda>time. t - time < windowMs rl) (stored rl key) = stored rl key"
    by (simp add: filter_id_conv)
  with assms(1) show ?thesis
    by (simp add: isAllowed_def stored_def Let_def)
qed

lemma isAllowed_full:
  assumes "maxAttempts rl \<le> length (stored rl key)"
    and "\<forall>u\<in>set (stored rl key). t - u < windowMs rl"
  shows "isAllowed t key rl = (False, rl)"
proof -
  from assms(2) have "filter (\<lambda>time. t - time < windowMs rl) (stored rl key) = stored rl key"
    by (simp add: filter_id_conv)
  with assms(1) show ?thesis
    by (simp add: isAllowed_def stored_def Let_def)
qed

lemma isAllowed_seq_under:
  assumes "length (stored rl key) + length ts \<le> maxAttempts rl"
    and "\<forall>u\<in>set (stored rl key @ ts). \<forall>t\<in>set ts. t - u < windowMs rl"
  shows "fst (isAllowed_seq ts key rl) = replicate (length ts) True
       \<and> stored (snd (isAllowed_seq ts key rl)) key = stored rl key @ ts
       \<and> maxAttempts (snd (isAllowed_seq ts key rl)) = maxAttempts rl
       \<and> windowMs (snd (isAllowed_seq ts key rl)) = windowMs rl"
  using assms
proof (induction ts arbitrary: rl)
  case Nil
  show ?case by simp
next
  case (Cons t ts)
  let ?rl1 = "rl\<lparr>attempts := (attempts rl)(key \<mapsto> stored rl key @ [t])\<rparr>"
  have step: "isAllowed t key rl = (True, ?rl1)"
    using Cons.prems by (intro isAllowed_under) auto
  have st1: "stored ?rl1 key = stored rl key @ [t]" by (simp add: stored_def)
  have "fst (isAllowed_seq ts key ?rl1) = replicate (length ts) True
       \<and> stored (snd (isAllowed_seq ts key ?rl1)) key = stored ?rl1 key @ ts
       \<and> maxAttempts (snd (isAllowed_seq ts key ?rl1)) = maxAttempts ?rl1
       \<and> windowMs (snd (isAllowed_seq ts key ?rl1)) = windowMs ?rl1"
    using Cons.prems by (intro Cons.IH) (auto simp: st1)
  then show ?case
    by (auto simp add: step st1 split: prod.splits)
qed

text \<open>
  C2: a rate limiter constructed with \<open>maxAttempts = 10\<close> and \<open>windowMs = 60000\<close>, in its
  empty state, and any key \<open>k\<close>. When the first ten calls and the eleventh all fall
  within the window opened by the first call (not before it, less than 60000 ms after
  it), each of the first ten calls of \<open>isAllowed k\<close> returns true, the eleventh returns
  false and leaves the state of the limiter, the stored list of \<open>k\<close> included, as it
  was; and a further call more than 60000 ms after the first call returns true.
\<close>

theorem rate_limiter_window:
  assumes "length ts = 10"
    and "\<forall>t\<in>set (ts @ [t11]). hd ts \<le> t \<and> t - hd ts < 60000"
    and "60000 < T - hd ts"
  shows "fst (isAllowed_seq ts k (new_RateLimiter 10 60000)) = replicate 10 True
       \<and> isAllowed t11 k (snd (isAllowed_seq ts k (new_RateLimiter 10 60000)))
            = (False, snd (isAllowed_seq ts k (new_RateLimiter 10 60000)))
       \<and> fst (isAllowed T k (snd (isAllowed_seq ts k (new_RateLimiter 10 60000))))"
proof -
  let ?init = "new_RateLimiter 10 60000"
  let ?rl = "snd (isAllowed_seq ts k ?init)"
  have e: "stored ?init k = []" "maxAttempts ?init = 10" "windowMs ?init = 60000"
    by (simp_all add: stored_def new_RateLimiter_def)
  have w: "\<forall>u\<in>set ts. \<forall>t\<in>set (ts @ [t11]). t - u < 60000"
  proof (intro ballI)
    fix u t assume "u \<in> set ts" "t \<in> set (ts @ [t11])"
    with assms(2) have "hd ts \<le> u" and "t - hd ts < 60000" by auto
    then show "t - u < 60000" by arith
  qed
  have run: "fst (isAllowed_seq ts k ?init) = replicate (length ts) True
       \<and> stored ?rl k = stored ?init k @ ts
       \<and> maxAttempts ?rl = maxAttempts ?init \<and> windowMs ?rl = windowMs ?init"
    using assms(1) w by (intro isAllowed_seq_under) (auto simp: e)
  then have s: "stored ?rl k = ts" "maxAttempts ?rl = 10" "windowMs ?rl = 60000"
    by (simp_all add: e)
  have eleventh: "isAllowed t11 k ?rl = (False, ?rl)"
    using assms(1) w by (intro isAllowed_full) (auto simp: s)
  from assms(1) obtain t1 rest where ts: "ts = t1 # rest" by (cases ts) auto
  with assms(3) have "\<not> T - t1 < 60000" by simp
  then have "length (filter (\<lambda>time. T - time < 60000) ts) \<le> length rest"
    by (simp add: ts)
  with assms(1) ts have "length (filter (\<lambda>time. T - time < 60000) ts) < 10" by simp
  then have later: "fst (isAllowed T k ?rl)"
    using s by (simp add: isAllowed_def stored_def Let_def)
  from run eleventh later assms(1) show ?thesis by simp
qed

theorem rate_limiter_window_witness:
  "fst (isAllowed_seq [0, 1000, 2000, 3000, 4000, 5000, 6000, 7000, 8000, 9000] (str ''k'')
          (new_RateLimiter 10 60000)) = replicate 10 True
   \<and> \<not> fst (isAllowed 59999 (str ''k'')
          (snd (isAllowed_seq [0, 1000, 2000, 3000, 4000, 5000, 6000, 7000, 8000, 9000] (str ''k'')
          (new_RateLimiter 10 60000))))
   \<and> fst (isAllowed 60001 (str ''k'')
          (snd (isAllowed_seq [0, 1000, 2000, 3000, 4000, 5000, 6000, 7000, 8000, 9000] (str ''k'')
          (new_RateLimiter 10 60000))))"
proof -
  have a: "length [0, 1000, 2000, 3000, 4000, 5000, 6000, 7000, 8000, 9000 :: int] = 10" by simp
  have b: "\<forall>t\<in>set ([0, 1000, 2000, 3000, 4000, 5000, 6000, 7000, 8000, 9000] @ [59999 :: int]).
             hd [0, 1000, 2000, 3000, 4000, 5000, 6000, 7000, 8000, 9000] \<le> t
             \<and> t - hd [0, 1000, 2000, 3000, 4000, 5000, 6000, 7000, 8000, 9000] < 60000" by simp
  have c: "60000 < (60001::int) - hd [0, 1000, 2000, 3000, 4000, 5000, 6000, 7000, 8000, 9000]" by simp
  from rate_limiter_window [OF a b c, of "str ''k''"] show ?thesis by simp
qed


section \<open>The validation pipeline\<close>

text \<open>
  The reasons of the specification are the audit events of the code: \<open>RATE_LIMITED\<close> is
  \<open>RATE_LIMIT_EXCEEDED\<close>, \<open>TOO_LONG\<close> is \<open>INPUT_TOO_LONG\<close>, \<open>MALICIOUS_PATTERN\<close> is
  \<open>MALICIOUS_INPUT_DETECTED\<close>, \<open>SUSPICIOUS_CONTENT\<close> is \<open>SUSPICIOUS_CONTENT_DETECTED\<close>,
  \<open>CONTEXT_VALIDATION_FAILED\<close> keeps its name and \<open>INVALID_ID\<close> is \<open>INVALID_DELETE_ID\<close>.
  Each event comes with its own message in the validation result.
\<close>

lemma fresh_allowed:
  "isAllowed now key default_RateLimiter = (True, default_RateLimiter\<lparr>attempts := [key \<mapsto> [now]]\<rparr>)"
  by (simp add: isAllowed_def default_RateLimiter_def new_RateLimiter_def)

lemma initial_allowed: "fst (isAllowed now key (rateLimiter initial_app))"
  by (simp add: initial_app_def fresh_allowed)

lemma pipeline_stages:
  assumes "fst (isAllowed now (str ''crud_operations'') (rateLimiter st))"
  shows "validateAndSanitizeInput url_protocol now input st =
     (let st1 = st\<lparr>rateLimiter := snd (isAllowed now (str ''crud_operations'') (rateLimiter st))\<rparr>
      in if length input > 500 then
           (rejected ''Input is too long. Maximum 500 characters allowed.'',
            st1\<lparr>console := console st @ [(''INPUT_TOO_LONG'', [(''length'', N (int (length input)))])]\<rparr>)
         else if \<not> validateInput input then
           (rejected ''Invalid input detected. Please check your content.'',
            st1\<lparr>console := console st @ [(''MALICIOUS_INPUT_DETECTED'', [(''input'', S (substring 0 100 input))])]\<rparr>)
         else if \<not> isValidContent input then
           (rejected ''Potentially unsafe content detected.'',
            st1\<lparr>console := console st @ [(''SUSPICIOUS_CONTENT_DETECTED'', [(''input'', S (substring 0 100 input))])]\<rparr>)
         else (\<lparr> isValid = True, sanitized = sanitizeHtml (trim input), error = None \<rparr>, st1))"
  using assms
  by (cases "isAllowed now (str ''crud_operations'') (rateLimiter st)")
     (simp add: validateAndSanitizeInput_def Let_def validateLength_def auditLog_def
        safeObjectCreate_def validateForContext_def)

lemma pipeline_limited:
  assumes "\<not> fst (isAllowed now (str ''crud_operations'') (rateLimiter st))"
  shows "validateAndSanitizeInput url_protocol now input st =
           (rejected ''Too many requests. Please wait before trying again.'',
            st\<lparr>console := console st @ [(''RATE_LIMIT_EXCEEDED'', [(''input'', S (substring 0 50 input))])]\<rparr>)"
  using assms
  by (cases "isAllowed now (str ''crud_operations'') (rateLimiter st)")
     (auto simp add: validateAndSanitizeInput_def Let_def auditLog_def
        safeObjectCreate_def isAllowed_def split: if_splits)

lemma script_not_valid:
  assumes "occurs True (str ''<script'') input"
  shows "\<not> isValidContent input"
proof -
  from assms have "test (lit ''<script'') True (trim input)"
    by (simp add: test_lit script_open_trim)
  then show ?thesis by (simp add: isValidContent_def xssPatterns_def)
qed

text \<open>
  C1, as stated, fails on the input \<open><script>\<close>, an opening tag without its closing
  tag: the limiter allows the call, the length is 8, no pattern of \<open>validateInput\<close>
  matches (the script pattern asks for \<open></script>\<close>), and the rejection comes from the
  next stage, \<open>isValidContent\<close>, with the event \<open>SUSPICIOUS_CONTENT_DETECTED\<close>.
\<close>

theorem script_tag_counterexample:
  "fst (validateAndSanitizeInput no_url_parser 0 (str ''<script>'') initial_app)
     = rejected ''Potentially unsafe content detected.''
   \<and> fst (validateAndSanitizeInput no_url_parser 0 (str ''<script>'') initial_app)
     \<noteq> rejected ''Invalid input detected. Please check your content.''
   \<and> map fst (console (snd (validateAndSanitizeInput no_url_parser 0 (str ''<script>'') initial_app)))
     = [''SUSPICIOUS_CONTENT_DETECTED'']
   \<and> fst (isAllowed 0 (str ''crud_operations'') (rateLimiter initial_app))
   \<and> length (str ''<script>'') \<le> 500
   \<and> occurs True (str ''<script'') (str ''<script>'')"
  by code_simp

text \<open>
  C1 (amended): every input in which \<open><script\<close> occurs, in any casing and whatever
  follows it, and which is rejected neither by the rate limiter nor for a length above
  500, is rejected by \<open>validateAndSanitizeInput\<close>: with the malicious-pattern reason
  (\<open>MALICIOUS_INPUT_DETECTED\<close>) when \<open>validateInput\<close> refuses it, which it does
  whenever the tag name ends at a word boundary and a closing \<open></script>\<close> stands
  somewhere after it; and otherwise with the reason of the next stage
  (\<open>SUSPICIOUS_CONTENT_DETECTED\<close>). It is never rejected with a later reason and never
  accepted.
\<close>

theorem script_tag_rejected:
  assumes "fst (isAllowed now (str ''crud_operations'') (rateLimiter st))"
    and "length input \<le> 500"
    and "occurs True (str ''<script'') input"
  shows "fst (validateAndSanitizeInput url_protocol now input st)
           = (if validateInput input then rejected ''Potentially unsafe content detected.''
              else rejected ''Invalid input detected. Please check your content.'')
       \<and> console (snd (validateAndSanitizeInput url_protocol now input st))
           = console st @ [(if validateInput input then ''SUSPICIOUS_CONTENT_DETECTED''
                            else ''MALICIOUS_INPUT_DETECTED'', [(''input'', S (substring 0 100 input))])]
       \<and> (lit_at True (str ''<script'') input a \<and> boundary input (a + 7) \<and> a + 7 \<le> c
            \<and> lit_at True (str ''</script>'') input c \<longrightarrow> \<not> validateInput input)"
proof -
  have "fst (validateAndSanitizeInput url_protocol now input st)
           = (if validateInput input then rejected ''Potentially unsafe content detected.''
              else rejected ''Invalid input detected. Please check your content.'')
       \<and> console (snd (validateAndSanitizeInput url_protocol now input st))
           = console st @ [(if validateInput input then ''SUSPICIOUS_CONTENT_DETECTED''
                            else ''MALICIOUS_INPUT_DETECTED'', [(''input'', S (substring 0 100 input))])]"
    using assms(2) script_not_valid [OF assms(3)]
    by (simp add: pipeline_stages [OF assms(1)] Let_def)
  moreover have "lit_at True (str ''<script'') input a \<and> boundary input (a + 7) \<and> a + 7 \<le> c
            \<and> lit_at True (str ''</script>'') input c \<longrightarrow> \<not> validateInput input"
    using script_element_refused by blast
  ultimately show ?thesis by blast
qed

theorem script_tag_rejected_witness:
  "fst (validateAndSanitizeInput no_url_parser 0 (str ''<SCRIPT src=x>alert(1)</script>'') initial_app)
     = rejected ''Invalid input detected. Please check your content.''
   \<and> map fst (console (snd (validateAndSanitizeInput no_url_parser 0
         (str ''<SCRIPT src=x>alert(1)</script>'') initial_app))) = [''MALICIOUS_INPUT_DETECTED'']"
proof -
  let ?in = "str ''<SCRIPT src=x>alert(1)</script>''"
  have b: "length ?in \<le> 500" by code_simp
  have c: "occurs True (str ''<script'') ?in" by code_simp
  have d: "lit_at True (str ''<script'') ?in 0 \<and> boundary ?in (0 + 7) \<and> 0 + 7 \<le> (22::nat)
            \<and> lit_at True (str ''</script>'') ?in 22" by code_simp
  from script_tag_rejected [OF initial_allowed b c, of no_url_parser 0 0 22] d show ?thesis
    by (simp add: initial_app_def)
qed

text \<open>
  C7: every raw input of length above 500 that the rate limiter lets through is rejected
  with the reason \<open>INPUT_TOO_LONG\<close> (\<open>TOO_LONG\<close>), whatever it contains; the result
  depends on the length alone.
\<close>

theorem too_long_rejected:
  assumes "fst (isAllowed now (str ''crud_operations'') (rateLimiter st))"
    and "length input > 500"
  shows "fst (validateAndSanitizeInput url_protocol now input st)
           = rejected ''Input is too long. Maximum 500 characters allowed.''
       \<and> console (snd (validateAndSanitizeInput url_protocol now input st))
           = console st @ [(''INPUT_TOO_LONG'', [(''length'', N (int (length input)))])]
       \<and> items (snd (validateAndSanitizeInput url_protocol now input st)) = items st"
  using assms(2) by (simp add: pipeline_stages [OF assms(1)] Let_def)

theorem too_long_rejected_witness:
  "fst (validateAndSanitizeInput no_url_parser 0 (replicate 501 60) initial_app)
           = rejected ''Input is too long. Maximum 500 characters allowed.''
   \<and> console (snd (validateAndSanitizeInput no_url_parser 0 (replicate 501 60) initial_app))
           = [(''INPUT_TOO_LONG'', [(''length'', N 501)])]"
proof -
  have b: "length (replicate 501 (60::nat)) > 500" by simp
  from too_long_rejected [OF initial_allowed b, of no_url_parser 0] show ?thesis
    by (simp add: initial_app_def)
qed

text \<open>
  C8, as stated, gives the empty input a reason of its own. The pipeline has none: the
  empty input and the input \<open>javascript:\<close>, which is not blank and matches a malicious
  pattern, are rejected with the same result and the same event,
  \<open>MALICIOUS_INPUT_DETECTED\<close>.
\<close>

theorem empty_reason_not_distinct_counterexample:
  "fst (validateAndSanitizeInput no_url_parser 0 [] initial_app)
     = fst (validateAndSanitizeInput no_url_parser 0 (str ''javascript:'') initial_app)
   \<and> map fst (console (snd (validateAndSanitizeInput no_url_parser 0 [] initial_app)))
     = map fst (console (snd (validateAndSanitizeInput no_url_parser 0 (str ''javascript:'') initial_app)))
   \<and> map fst (console (snd (validateAndSanitizeInput no_url_parser 0 [] initial_app)))
     = [''MALICIOUS_INPUT_DETECTED'']
   \<and> trim (str ''javascript:'') \<noteq> []"
  by code_simp

text \<open>
  C8 (amended): every raw input that is empty or consists of white space only, and that is
  rejected neither by the rate limiter nor for its length, is rejected by
  \<open>validateInput\<close>, the stage of the malicious-pattern scan, with that stage's reason
  (\<open>MALICIOUS_INPUT_DETECTED\<close>, "Invalid input detected"); no later stage runs on it.
\<close>

theorem blank_rejected_as_malicious:
  assumes "fst (isAllowed now (str ''crud_operations'') (rateLimiter st))"
    and "length input \<le> 500"
    and "trim input = []"
  shows "fst (validateAndSanitizeInput url_protocol now input st)
           = rejected ''Invalid input detected. Please check your content.''
       \<and> console (snd (validateAndSanitizeInput url_protocol now input st))
           = console st @ [(''MALICIOUS_INPUT_DETECTED'', [(''input'', S (substring 0 100 input))])]
       \<and> items (snd (validateAndSanitizeInput url_protocol now input st)) = items st"
  using assms(2,3) by (simp add: pipeline_stages [OF assms(1)] Let_def validateInput_def)

theorem blank_rejected_as_malicious_witness:
  "fst (validateAndSanitizeInput no_url_parser 0 [32, 9, 8195] initial_app)
           = rejected ''Invalid input detected. Please check your content.''
   \<and> console (snd (validateAndSanitizeInput no_url_parser 0 [32, 9, 8195] initial_app))
           = [(''MALICIOUS_INPUT_DETECTED'', [(''input'', S [32, 9, 8195])])]"
proof -
  have b: "length [32, 9, 8195::nat] \<le> 500" by simp
  have c: "trim [32, 9, 8195] = []" by code_simp
  have d: "substring 0 100 [32, 9, 8195] = [32, 9, 8195]" by code_simp
  from blank_rejected_as_malicious [OF initial_allowed b c, of no_url_parser 0] d show ?thesis
    by (simp add: initial_app_def)
qed

text \<open>
  C9: for every input, \<open>validateForContext\<close> in the \<open>text\<close> context is the conjunction
  of \<open>validateInput\<close> and \<open>isValidContent\<close>, so it holds whenever both hold; and
  \<open>validateAndSanitizeInput\<close> never rejects with \<open>CONTEXT_VALIDATION_FAILED\<close>: neither
  the message nor the audit event of that branch is ever produced.
\<close>

theorem context_stage_unreachable:
  "(validateInput input \<and> isValidContent input \<longrightarrow> validateForContext url_protocol input Text)
   \<and> validateForContext url_protocol input Text = (validateInput input \<and> isValidContent input)
   \<and> error (fst (validateAndSanitizeInput url_protocol now input st))
        \<noteq> Some ''Content failed security validation.''
   \<and> console (snd (validateAndSanitizeInput url_protocol now input st))
        \<noteq> console st @ [(''CONTEXT_VALIDATION_FAILED'', d)]"
  by (simp add: validateAndSanitizeInput_def Let_def validateForContext_def rejected_def auditLog_def
        safeObjectCreate_def split: prod.splits)

theorem context_stage_unreachable_witness:
  "validateInput (str ''Buy milk'') \<and> isValidContent (str ''Buy milk'')
   \<and> validateForContext no_url_parser (str ''Buy milk'') Text"
proof -
  have a: "validateInput (str ''Buy milk'')" by code_simp
  have b: "isValidContent (str ''Buy milk'')" by code_simp
  from context_stage_unreachable [of "str ''Buy milk''" no_url_parser] a b show ?thesis
    by blast
qed


section \<open>Deleting\<close>

text \<open>
  C5: for every state and every identifier that does not match \<open>^\d+_[a-z0-9]+$\<close>,
  \<open>deleteItem\<close> rejects it (\<open>INVALID_DELETE_ID\<close>, "Invalid item identifier") without
  consulting the rate limiter, whose state stays as it was, and without touching the
  list: the items after the call are the items before it.
\<close>

theorem delete_invalid_id:
  assumes "\<not> test id_format False ident"
  shows "deleteItem now ident st =
           st\<lparr>console := console st @ [(''INVALID_DELETE_ID'', [(''id'', S ident)])],
              security := \<lparr> isBlocked = True, message = ''Invalid item identifier'', sec_attempts = 0 \<rparr>\<rparr>
         \<and> items (deleteItem now ident st) = items st
         \<and> rateLimiter (deleteItem now ident st) = rateLimiter st"
  using assms by (simp add: deleteItem_def auditLog_def safeObjectCreate_def)

theorem delete_invalid_id_witness:
  "items (deleteItem 0 (str ''17_AB'')
      (initial_app\<lparr>items := [\<lparr> item_id = str ''17_ab'', item_text = str ''x'', createdAt = 0, lastModified = 0 \<rparr>]\<rparr>))
     = [\<lparr> item_id = str ''17_ab'', item_text = str ''x'', createdAt = 0, lastModified = 0 \<rparr>]
   \<and> \<not> test id_format False (str ''17_AB'')"
proof -
  have a: "\<not> test id_format False (str ''17_AB'')" by code_simp
  from delete_invalid_id [OF a, of 0] a show ?thesis by simp
qed


section \<open>What an accepted input can contain\<close>

lemma alts_single: "alts [r] = r"
  by (simp add: alts_def)

lemma alts_Cons: "rs \<noteq> [] \<Longrightarrow> alts (r # rs) = Alt r (alts rs)"
  by (simp add: alts_def)

lemma set_ends_alts:
  "rs \<noteq> [] \<Longrightarrow> set (ends (alts rs) ic s i) = (\<Union>r\<in>set rs. set (ends r ic s i))"
proof (induction rs)
  case Nil
  then show ?case by simp
next
  case (Cons r rs)
  show ?case
  proof (cases "rs = []")
    case True
    then show ?thesis by (simp add: alts_single)
  next
    case False
    with Cons.IH show ?thesis by (simp add: alts_Cons)
  qed
qed

lemma test_alts: "rs \<noteq> [] \<Longrightarrow> test (alts rs) ic s \<longleftrightarrow> (\<exists>r\<in>set rs. test r ic s)"
proof -
  assume ne: "rs \<noteq> []"
  have "\<And>i. ends (alts rs) ic s i \<noteq> [] \<longleftrightarrow> (\<exists>r\<in>set rs. ends r ic s i \<noteq> [])"
  proof -
    fix i
    have "ends (alts rs) ic s i \<noteq> [] \<longleftrightarrow> set (ends (alts rs) ic s i) \<noteq> {}" by simp
    also have "\<dots> \<longleftrightarrow> (\<exists>r\<in>set rs. set (ends r ic s i) \<noteq> {})"
      by (simp add: set_ends_alts [OF ne])
    finally show "ends (alts rs) ic s i \<noteq> [] \<longleftrightarrow> (\<exists>r\<in>set rs. ends r ic s i \<noteq> [])" by simp
  qed
  then show ?thesis by (auto simp: test_iff)
qed

lemma test_Chr: "test (Chr p) False s \<longleftrightarrow> p \<in> set s"
proof
  assume "test (Chr p) False s"
  then obtain i where "ends (Chr p) False s i \<noteq> []" unfolding test_iff by blast
  then have "i < length s \<and> s ! i = p"
    by (simp add: char_match_def split: if_splits)
  then show "p \<in> set s" using nth_mem by blast
next
  assume "p \<in> set s"
  then obtain i where i: "i < length s" "s ! i = p" unfolding in_set_conv_nth by blast
  then have "i \<le> length s" "ends (Chr p) False s i \<noteq> []" by (simp_all add: char_match_def)
  then show "test (Chr p) False s" unfolding test_iff by blast
qed

lemma occurs_single: "occurs False [p] s \<longleftrightarrow> p \<in> set s"
proof
  assume "occurs False [p] s"
  then obtain i where "lit_at False [p] s i" unfolding occurs_pos by blast
  then have "i < length s \<and> s ! i = p" by (simp add: lit_at_Cons char_match_def)
  then show "p \<in> set s" using nth_mem by blast
next
  assume "p \<in> set s"
  then obtain i where i: "i < length s" "s ! i = p" unfolding in_set_conv_nth by blast
  then have "i \<le> length s" "lit_at False [p] s i"
    by (simp_all add: lit_at_Cons lit_at_Nil char_match_def)
  then show "occurs False [p] s" unfolding occurs_pos by blast
qed

lemma word_bounded_pos:
  "word_bounded_occurs w s \<longleftrightarrow>
     (\<exists>i\<le>length s. boundary s i \<and> lit_at True w s i \<and> boundary s (i + length w))"
  unfolding word_bounded_occurs_def list_ex_iff set_upt by (auto simp: less_Suc_eq_le)

lemma keyword_pattern:
  "test (seqs [WordB, alts (map lit sqlKeywords), WordB]) True s
     \<longleftrightarrow> (\<exists>kw\<in>set sqlKeywords. word_bounded_occurs (str kw) s)"
proof -
  have ne: "map lit sqlKeywords \<noteq> []" by (simp add: sqlKeywords_def)
  have len: "\<And>kw. length (str kw) = length kw" by (simp add: str_def)
  have "\<And>i. ends (seqs [WordB, alts (map lit sqlKeywords), WordB]) True s i \<noteq> []
          \<longleftrightarrow> (\<exists>kw\<in>set sqlKeywords. boundary s i \<and> lit_at True (str kw) s i
                                       \<and> boundary s (i + length (str kw)))"
  proof -
    fix i
    have "set (ends (seqs [WordB, alts (map lit sqlKeywords), WordB]) True s i)
            = {j. boundary s i \<and> (\<exists>kw\<in>set sqlKeywords. lit_at True (str kw) s i \<and> j = i + length kw)
                  \<and> boundary s j}"
      by (auto simp: seqs_def set_ends_alts [OF ne] ends_lit boundary_def split: if_splits)
    then have "ends (seqs [WordB, alts (map lit sqlKeywords), WordB]) True s i \<noteq> []
                 \<longleftrightarrow> {j. boundary s i \<and> (\<exists>kw\<in>set sqlKeywords. lit_at True (str kw) s i \<and> j = i + length kw)
                  \<and> boundary s j} \<noteq> {}"
      by (metis set_empty)
    also have "\<dots> \<longleftrightarrow> (\<exists>kw\<in>set sqlKeywords. boundary s i \<and> lit_at True (str kw) s i
                                       \<and> boundary s (i + length (str kw)))"
      by (auto simp: len)
    finally show "ends (seqs [WordB, alts (map lit sqlKeywords), WordB]) True s i \<noteq> []
          \<longleftrightarrow> (\<exists>kw\<in>set sqlKeywords. boundary s i \<and> lit_at True (str kw) s i
                                       \<and> boundary s (i + length (str kw)))" .
  qed
  then show ?thesis
    unfolding test_iff word_bounded_pos by blast
qed


lemma accepted_iff:
  "isValid (fst (validateAndSanitizeInput url_protocol now input st)) \<longleftrightarrow>
     fst (isAllowed now (str ''crud_operations'') (rateLimiter st)) \<and> length input \<le> 500
     \<and> validateInput input \<and> isValidContent input"
proof (cases "fst (isAllowed now (str ''crud_operations'') (rateLimiter st))")
  case True
  show ?thesis by (simp add: pipeline_stages [OF True] Let_def rejected_def True)
next
  case False
  show ?thesis by (simp add: pipeline_limited [OF False] rejected_def False)
qed

lemma accepted_sanitized:
  assumes "isValid (fst (validateAndSanitizeInput url_protocol now input st))"
  shows "sanitized (fst (validateAndSanitizeInput url_protocol now input st)) = sanitizeHtml (trim input)"
proof -
  from assms have a: "fst (isAllowed now (str ''crud_operations'') (rateLimiter st))"
    and r: "length input \<le> 500" "validateInput input" "isValidContent input"
    by (simp_all add: accepted_iff)
  show ?thesis using r by (simp add: pipeline_stages [OF a] Let_def)
qed

lemma replace_all_absent: "c \<notin> set s \<Longrightarrow> replace_all c rep s = s"
  by (induction s) (simp_all add: replace_all_Nil replace_all_Cons)

lemma set_replace_all: "set (replace_all c rep s) \<subseteq> set s \<union> set rep"
  by (induction s) (auto simp: replace_all_Nil replace_all_Cons)

lemma valid_content_plain:
  assumes "isValidContent input"
  shows "set (trim input) \<inter> {39, 34, 59, 38, 124, 43} = {}"
    and "\<not> occurs False (str ''--'') (trim input)"
    and "\<not> occurs False (str ''/*'') (trim input)"
    and "\<not> occurs False (str ''*/'') (trim input)"
    and "\<not> (\<exists>kw\<in>set sqlKeywords. word_bounded_occurs (str kw) (trim input))"
proof -
  let ?t = "trim input"
  let ?rs = "[lit ''--'', lit ''/*'', lit ''*/'', lit '';'', Chr 39, Chr 34, lit ''|'', lit ''&'', lit ''+'']"
  from assms have k: "\<not> test (seqs [WordB, alts (map lit sqlKeywords), WordB]) True ?t"
    and p: "\<not> test (alts ?rs) False ?t"
    by (simp_all add: isValidContent_def Let_def sqlPatterns_def)
  from k show "\<not> (\<exists>kw\<in>set sqlKeywords. word_bounded_occurs (str kw) ?t)"
    by (simp add: keyword_pattern)
  have "?rs \<noteq> []" by simp
  from p test_alts [OF this] have q: "\<forall>r\<in>set ?rs. \<not> test r False ?t" by blast
  from q show "\<not> occurs False (str ''--'') ?t" "\<not> occurs False (str ''/*'') ?t"
    "\<not> occurs False (str ''*/'') ?t"
    by (simp_all add: test_lit)
  have one: "str '';'' = [59]" "str ''|'' = [124]" "str ''&'' = [38]" "str ''+'' = [43]"
    by (simp_all add: str_def)
  from q have "39 \<notin> set ?t" "34 \<notin> set ?t" "59 \<notin> set ?t" "124 \<notin> set ?t" "38 \<notin> set ?t" "43 \<notin> set ?t"
    by (simp_all add: test_lit test_Chr one occurs_single)
  then show "set ?t \<inter> {39, 34, 59, 38, 124, 43} = {}" by simp
qed

lemma plain_sanitize:
  assumes "set t \<inter> {39, 34, 59, 38, 124, 43} = {}"
  shows "sanitizeHtml t
           = replace_all 47 (str ''&#x2F;'') (replace_all 62 (str ''&gt;'') (replace_all 60 (str ''&lt;'') t))"
proof -
  let ?u = "replace_all 62 (str ''&gt;'') (replace_all 60 (str ''&lt;'') t)"
  from assms have t: "38 \<notin> set t" "34 \<notin> set t" "39 \<notin> set t" by auto
  have "set ?u \<subseteq> set t \<union> set (str ''&lt;'') \<union> set (str ''&gt;'')"
    using set_replace_all [of 62 "str ''&gt;''" "replace_all 60 (str ''&lt;'') t"]
      set_replace_all [of 60 "str ''&lt;''" t] by blast
  moreover have "34 \<notin> set (str ''&lt;'') \<union> set (str ''&gt;'')" "39 \<notin> set (str ''&lt;'') \<union> set (str ''&gt;'')"
    by (simp_all add: str_def)
  ultimately have u: "34 \<notin> set ?u" "39 \<notin> set ?u" using t by blast+
  show ?thesis
    by (simp add: sanitizeHtml_def replace_all_absent t u)
qed

lemma benign_rejected:
  "\<not> isValidContent (str ''Tom'' @ [39] @ str ''s list'')" "\<not> isValidContent (str ''1+1'')"
  by code_simp+

text \<open>
  C10: for every raw input that \<open>validateAndSanitizeInput\<close> accepts, the trimmed input
  contains none of the characters \<open>' " ; & | +\<close>, none of the substrings \<open>--\<close>,
  \<open>/*\<close>, \<open>*/\<close>, and no word-bounded occurrence, in any casing, of a keyword of
  \<open>sqlKeywords\<close>; the inputs \<open>Tom's list\<close> and \<open>1+1\<close> are rejected in every state; and on
  every accepted input the sanitized value is what the passes for \<open><\<close>, \<open>>\<close> and \<open>/\<close>
  alone produce: the passes for \<open>&\<close>, \<open>"\<close> and \<open>'\<close> change nothing.
\<close>

theorem accepted_input_is_plain:
  assumes "isValid (fst (validateAndSanitizeInput url_protocol now input st))"
  shows "set (trim input) \<inter> {39, 34, 59, 38, 124, 43} = {}
       \<and> \<not> occurs False (str ''--'') (trim input)
       \<and> \<not> occurs False (str ''/*'') (trim input)
       \<and> \<not> occurs False (str ''*/'') (trim input)
       \<and> \<not> (\<exists>kw\<in>set sqlKeywords. word_bounded_occurs (str kw) (trim input))
       \<and> \<not> isValid (fst (validateAndSanitizeInput url_protocol' now' (str ''Tom'' @ [39] @ str ''s list'') st'))
       \<and> \<not> isValid (fst (validateAndSanitizeInput url_protocol' now' (str ''1+1'') st'))
       \<and> sanitized (fst (validateAndSanitizeInput url_protocol now input st))
           = replace_all 47 (str ''&#x2F;'') (replace_all 62 (str ''&gt;'')
               (replace_all 60 (str ''&lt;'') (trim input)))"
proof -
  from assms have c: "isValidContent input" by (simp add: accepted_iff)
  note p = valid_content_plain [OF c]
  have "sanitized (fst (validateAndSanitizeInput url_protocol now input st)) = sanitizeHtml (trim input)"
    using assms by (rule accepted_sanitized)
  with p(1) have s: "sanitized (fst (validateAndSanitizeInput url_protocol now input st))
           = replace_all 47 (str ''&#x2F;'') (replace_all 62 (str ''&gt;'')
               (replace_all 60 (str ''&lt;'') (trim input)))"
    by (simp add: plain_sanitize)
  have b: "\<not> isValid (fst (validateAndSanitizeInput url_protocol' now' (str ''Tom'' @ [39] @ str ''s list'') st'))"
    "\<not> isValid (fst (validateAndSanitizeInput url_protocol' now' (str ''1+1'') st'))"
    using benign_rejected by (simp_all add: accepted_iff)
  from p s b show ?thesis by blast
qed

theorem accepted_input_is_plain_witness:
  "isValid (fst (validateAndSanitizeInput no_url_parser 0 (str ''Buy milk'') initial_app))
   \<and> set (trim (str ''Buy milk'')) \<inter> {39, 34, 59, 38, 124, 43} = {}
   \<and> \<not> (\<exists>kw\<in>set sqlKeywords. word_bounded_occurs (str kw) (trim (str ''Buy milk'')))
   \<and> sanitized (fst (validateAndSanitizeInput no_url_parser 0 (str ''Buy milk'') initial_app))
           = replace_all 47 (str ''&#x2F;'') (replace_all 62 (str ''&gt;'')
               (replace_all 60 (str ''&lt;'') (trim (str ''Buy milk''))))"
proof -
  have h: "isValid (fst (validateAndSanitizeInput no_url_parser 0 (str ''Buy milk'') initial_app))"
    by code_simp
  from accepted_input_is_plain [OF h] h show ?thesis by blast
qed


section \<open>Adding an item, then a rejected edit\<close>

lemma isAllowed_room:
  assumes "length (stored rl key) < maxAttempts rl"
  shows "fst (isAllowed t key rl)"
proof -
  have "fst (isAllowed t key rl)
          = (length (filter (\<lambda>time. t - time < windowMs rl) (stored rl key)) < maxAttempts rl)"
    by (simp add: isAllowed_def stored_def Let_def not_le)
  moreover have "length (filter (\<lambda>time. t - time < windowMs rl) (stored rl key))
                   \<le> length (stored rl key)"
    by (rule length_filter_le)
  ultimately show ?thesis using assms by linarith
qed

lemma buy_milk_facts:
  "validateInput (str ''Buy milk'')" "isValidContent (str ''Buy milk'')"
  "sanitizeHtml (trim (str ''Buy milk'')) = str ''Buy milk''"
  "length (str ''Buy milk'') = 8"
  by code_simp+

lemma img_facts:
  "\<not> validateInput (str ''<img src=x onerror=alert(1)>'')"
  "length (str ''<img src=x onerror=alert(1)>'') = 28"
  "substring 0 100 (str ''<img src=x onerror=alert(1)>'') = str ''<img src=x onerror=alert(1)>''"
  by code_simp+

lemma generateSecureId_nonempty: "generateSecureId t r1 r2 \<noteq> []"
  by (simp add: generateSecureId_def Let_def str_def)

lemma add_buy_milk:
  "addItem url_protocol t_limit now t_id r1 r2 (handleNewItemChange (str ''Buy milk'') initial_app) =
     initial_app\<lparr>
       items := [\<lparr> item_id = generateSecureId t_id r1 r2, item_text = str ''Buy milk'',
                   createdAt = now, lastModified = now \<rparr>],
       rateLimiter := default_RateLimiter\<lparr>attempts := [str ''crud_operations'' \<mapsto> [t_limit]]\<rparr>,
       console := [(''ITEM_CREATED'', [(''itemId'', S (generateSecureId t_id r1 r2)), (''textLength'', N 8)])]\<rparr>"
proof -
  let ?s = "initial_app\<lparr>newItem := str ''Buy milk''\<rparr>"
  have st0: "handleNewItemChange (str ''Buy milk'') initial_app = ?s"
    by (simp add: handleNewItemChange_def buy_milk_facts initial_app_def)
  have al: "isAllowed t_limit (str ''crud_operations'') (rateLimiter initial_app)
              = (True, default_RateLimiter\<lparr>attempts := [str ''crud_operations'' \<mapsto> [t_limit]]\<rparr>)"
    by (simp add: initial_app_def fresh_allowed)
  then have a: "fst (isAllowed t_limit (str ''crud_operations'') (rateLimiter ?s))" by simp
  have v: "validateAndSanitizeInput url_protocol t_limit (str ''Buy milk'') ?s =
      (\<lparr> isValid = True, sanitized = str ''Buy milk'', error = None \<rparr>,
       ?s\<lparr>rateLimiter := default_RateLimiter\<lparr>attempts := [str ''crud_operations'' \<mapsto> [t_limit]]\<rparr>\<rparr>)"
    by (simp add: pipeline_stages [OF a] Let_def buy_milk_facts al)
  have ne: "str ''Buy milk'' \<noteq> []" by (simp add: str_def)
  have "addItem url_protocol t_limit now t_id r1 r2 ?s =
     ?s\<lparr>rateLimiter := default_RateLimiter\<lparr>attempts := [str ''crud_operations'' \<mapsto> [t_limit]]\<rparr>,
        items := items ?s @ [\<lparr> item_id = generateSecureId t_id r1 r2, item_text = str ''Buy milk'',
                   createdAt = now, lastModified = now \<rparr>],
        newItem := [],
        security := \<lparr> isBlocked = False, message = [], sec_attempts = 0 \<rparr>,
        console := console ?s @ [(''ITEM_CREATED'', [(''itemId'', S (generateSecureId t_id r1 r2)), (''textLength'', N 8)])]\<rparr>"
    by (simp add: addItem_def v Let_def ne auditLog_def safeObjectCreate_def buy_milk_facts)
  also have "\<dots> = initial_app\<lparr>
       items := [\<lparr> item_id = generateSecureId t_id r1 r2, item_text = str ''Buy milk'',
                   createdAt = now, lastModified = now \<rparr>],
       rateLimiter := default_RateLimiter\<lparr>attempts := [str ''crud_operations'' \<mapsto> [t_limit]]\<rparr>,
       console := [(''ITEM_CREATED'', [(''itemId'', S (generateSecureId t_id r1 r2)), (''textLength'', N 8)])]\<rparr>"
    by (simp add: initial_app_def)
  finally show ?thesis by (simp only: st0)
qed

text \<open>
  C4: from the initial state (no items, a fresh rate limiter), typing \<open>Buy milk\<close> and
  adding it is accepted and appends one item whose text is exactly \<open>Buy milk\<close> and
  whose \<open>createdAt\<close> equals its \<open>lastModified\<close>. Editing that item to
  \<open><img src=x onerror=alert(1)>\<close> and saving is rejected with the malicious-pattern
  reason (\<open>MALICIOUS_INPUT_DETECTED\<close>), and the list still holds the same item, with its
  id, text and both time stamps unchanged. This holds for all clock readings, random
  strings and URL parsers.
\<close>

theorem buy_milk_then_rejected_edit:
  fixes url_protocol t_limit now t_id r1 r2 t_limit' now'
  defines "it \<equiv> \<lparr> item_id = generateSecureId t_id r1 r2, item_text = str ''Buy milk'',
                   createdAt = now, lastModified = now \<rparr>"
  defines "st1 \<equiv> addItem url_protocol t_limit now t_id r1 r2
                    (handleNewItemChange (str ''Buy milk'') initial_app)"
  defines "st2 \<equiv> saveEdit url_protocol t_limit' now'
                    (handleEditTextChange (str ''<img src=x onerror=alert(1)>'') (startEditing it st1))"
  shows "items st1 = [it] \<and> item_text it = str ''Buy milk'' \<and> createdAt it = lastModified it
       \<and> items st2 = [it]
       \<and> security st2 = \<lparr> isBlocked = True,
                            message = ''Invalid input detected. Please check your content.'',
                            sec_attempts = 0 \<rparr>
       \<and> last (console st2) = (''MALICIOUS_INPUT_DETECTED'',
                                 [(''input'', S (str ''<img src=x onerror=alert(1)>''))])"
proof -
  let ?img = "str ''<img src=x onerror=alert(1)>''"
  let ?e = "handleEditTextChange ?img (startEditing it st1)"
  have st1: "st1 = initial_app\<lparr>
       items := [it],
       rateLimiter := default_RateLimiter\<lparr>attempts := [str ''crud_operations'' \<mapsto> [t_limit]]\<rparr>,
       console := [(''ITEM_CREATED'', [(''itemId'', S (generateSecureId t_id r1 r2)), (''textLength'', N 8)])]\<rparr>"
    unfolding st1_def it_def by (rule add_buy_milk)
  have e: "?e = st1\<lparr>editingId := Some (item_id it), editingText := ?img,
                      console := console st1 @ [(''EDIT_STARTED'', [(''itemId'', S (item_id it))])]\<rparr>"
    by (simp add: handleEditTextChange_def startEditing_def auditLog_def safeObjectCreate_def img_facts)
  have "length (stored (rateLimiter ?e) (str ''crud_operations'')) < maxAttempts (rateLimiter ?e)"
    unfolding e by (simp add: st1 stored_def default_RateLimiter_def new_RateLimiter_def)
  then have a: "fst (isAllowed t_limit' (str ''crud_operations'') (rateLimiter ?e))"
    by (rule isAllowed_room)
  have v: "fst (validateAndSanitizeInput url_protocol t_limit' ?img ?e)
             = rejected ''Invalid input detected. Please check your content.''"
    "items (snd (validateAndSanitizeInput url_protocol t_limit' ?img ?e)) = items ?e"
    "console (snd (validateAndSanitizeInput url_protocol t_limit' ?img ?e))
       = console ?e @ [(''MALICIOUS_INPUT_DETECTED'', [(''input'', S ?img)])]"
    by (simp_all add: pipeline_stages [OF a] Let_def img_facts)
  have id: "editingId ?e = Some (item_id it)" "editingText ?e = ?img" "item_id it \<noteq> []"
    unfolding e by (simp_all add: it_def generateSecureId_nonempty)
  have s: "st2 = (snd (validateAndSanitizeInput url_protocol t_limit' ?img ?e))
                   \<lparr>security := \<lparr> isBlocked = True,
                        message = ''Invalid input detected. Please check your content.'',
                        sec_attempts = 0 \<rparr>\<rparr>"
    unfolding st2_def saveEdit_def
    by (simp add: id Let_def split_beta v(1) rejected_def error_or_def)
  have "items st1 = [it]" by (simp add: st1)
  moreover have "items ?e = [it]" unfolding e by (simp add: st1)
  then have "items st2 = [it]" by (simp add: s v)
  moreover have "last (console st2) = (''MALICIOUS_INPUT_DETECTED'', [(''input'', S ?img)])"
    by (simp add: s v)
  moreover have "security st2 = \<lparr> isBlocked = True,
                            message = ''Invalid input detected. Please check your content.'',
                            sec_attempts = 0 \<rparr>" by (simp add: s)
  ultimately show ?thesis by (simp add: it_def)
qed


section \<open>Generated identifiers\<close>

text \<open>
  C6: the claim is that every identifier \<open>generateSecureId\<close> returns matches
  \<open>^\d+_[a-z0-9]+$\<close>. When \<open>Math.random()\<close> returns 0 twice, both renderings in base
  36 are \<open>0\<close>, both \<open>substring(2, 15)\<close> are empty, and the identifier ends with the
  underscore: it does not match the format, so \<open>deleteItem\<close> refuses to delete the item
  that carries it. With one non-zero fraction the identifier matches. The run below takes
  the clock reading 1700000000000.
\<close>

theorem generateSecureId_zero_random:
  "generateSecureId 1700000000000 (str ''0'') (str ''0'') = str ''1700000000000_''
   \<and> \<not> test id_format False (generateSecureId 1700000000000 (str ''0'') (str ''0''))
   \<and> map item_id (items (deleteItem 1700000000001 (generateSecureId 1700000000000 (str ''0'') (str ''0''))
         (addItem no_url_parser 1700000000000 1700000000000 1700000000000 (str ''0'') (str ''0'')
            (handleNewItemChange (str ''Buy milk'') initial_app))))
       = [str ''1700000000000_'']
   \<and> test id_format False (generateSecureId 1700000000000 (str ''0.4fzyo82mvyr'') (str ''0''))"
  by code_simp

end
